theory Spec2Isabelle
  imports Main
begin

section \<open>Python values and exceptions\<close>

text \<open>
  The program is \<^verbatim>\<open>post_content.py\<close>. Its data are the values that \<^verbatim>\<open>json.loads\<close>
  produces: the type hints say \<^verbatim>\<open>Dict[str, Any]\<close>, so a field can hold any JSON value. A
  dictionary is an association list read by \<^verbatim>\<open>map_of\<close> (the keys of a parsed object are
  distinct). Strings are lists of characters, a character standing for its code point
  (below 256).
\<close>

datatype json =
    JNull
  | JBool bool
  | JInt int
  | JFloat int int
  | JStr string
  | JArr "json list"
  | JObj "(string \<times> json) list"

text \<open>The exceptions the modelled code can raise or let through.\<close>

datatype exn =
    AttributeError
  | KeyError
  | TypeError
  | ValueError
  | RuntimeError
  | FileNotFoundError
  | JSONDecodeError
  | UnicodeDecodeError
  | UnicodeEncodeError
  | RecursionError
  | BinasciiError
  | InvalidTag
  | TimeoutException
  | ElementNotInteractableException string
  | ElementClickInterceptedException
  | StaleElementReferenceException
  | NoSuchElementException
  | InvalidArgumentException
  | WebDriverException

text \<open>What a file holds, and what a cipher takes and gives, is a list of bytes.\<close>

type_synonym bytes = "char list"

text \<open>\<^verbatim>\<open>d.get(key, default)\<close> on a dictionary.\<close>

definition dict_get :: "(string \<times> json) list \<Rightarrow> string \<Rightarrow> json \<Rightarrow> json" where
  "dict_get d k dflt = (case map_of d k of None \<Rightarrow> dflt | Some v \<Rightarrow> v)"

text \<open>
  \<^verbatim>\<open>str.isspace\<close> on the code points below 256: TAB to CR, FS to US, the space, NEL and
  the no-break space. \<^verbatim>\<open>s.strip()\<close> drops such characters from both ends.
\<close>

definition py_isspace :: "char \<Rightarrow> bool" where
  "py_isspace c = (of_char c \<in> {9, 10, 11, 12, 13, 28, 29, 30, 31, 32, 133, 160 :: nat})"

definition lstrip :: "string \<Rightarrow> string" where
  "lstrip s = dropWhile py_isspace s"

definition rstrip :: "string \<Rightarrow> string" where
  "rstrip s = rev (dropWhile py_isspace (rev s))"

definition strip :: "string \<Rightarrow> string" where
  "strip s = rstrip (lstrip s)"

section \<open>Content selector\<close>

text \<open>
  \<^verbatim>\<open>x.get("description", "").strip()\<close>: \<^verbatim>\<open>get\<close> exists on dictionaries only and
  \<^verbatim>\<open>strip\<close> on strings only; on any other value the attribute lookup raises
  \<^verbatim>\<open>AttributeError\<close>.
\<close>

fun get_description :: "json \<Rightarrow> exn + string" where
  "get_description (JObj d) =
     (case dict_get d ''description'' (JStr '''') of
        JStr s \<Rightarrow> Inr (strip s)
      | _ \<Rightarrow> Inl AttributeError)"
| "get_description _ = Inl AttributeError"

text \<open>
  The set comprehension
  \<^verbatim>\<open>{entry.get("description", "").strip() for entry in posted_history}\<close>,
  evaluated entry by entry; the first entry that raises ends it.
\<close>

fun posted_descriptions :: "json list \<Rightarrow> string set \<Rightarrow> exn + string set" where
  "posted_descriptions [] acc = Inr acc"
| "posted_descriptions (entry # rest) acc =
     (case get_description entry of
        Inl e \<Rightarrow> Inl e
      | Inr d \<Rightarrow> posted_descriptions rest (insert d acc))"

text \<open>The \<^verbatim>\<open>for item in content_items\<close> loop.\<close>

fun scan_items :: "string set \<Rightarrow> json list \<Rightarrow> exn + json option" where
  "scan_items posted [] = Inr None"
| "scan_items posted (item # rest) =
     (case get_description item of
        Inl e \<Rightarrow> Inl e
      | Inr description \<Rightarrow>
          if description \<noteq> [] \<and> description \<notin> posted then Inr (Some item)
          else scan_items posted rest)"

definition find_next_content_item :: "json list \<Rightarrow> json list \<Rightarrow> exn + json option" where
  "find_next_content_item content_items posted_history =
     (case posted_descriptions posted_history {} of
        Inl e \<Rightarrow> Inl e
      | Inr posted \<Rightarrow> scan_items posted content_items)"

text \<open>
  A well-formed entry is a dictionary whose description, when present, is a string:
  the shape of a content item and of a history entry.
\<close>

fun well_formed :: "json \<Rightarrow> bool" where
  "well_formed (JObj d) = (case map_of d ''description'' of None \<Rightarrow> True | Some (JStr s) \<Rightarrow> True | Some _ \<Rightarrow> False)"
| "well_formed _ = False"

text \<open>The identity key of a well-formed entry: its stripped description.\<close>

fun key_of :: "json \<Rightarrow> string" where
  "key_of (JObj d) = (case map_of d ''description'' of Some (JStr s) \<Rightarrow> strip s | _ \<Rightarrow> [])"
| "key_of _ = []"

text \<open>A feed and a history to run the selector on.\<close>

definition example_feed :: "json list" where
  "example_feed = [JObj [(''title'', JStr ''A''), (''description'', JStr '' <p>Old</p>'')],
            JObj [(''title'', JStr ''B''), (''description'', JStr ''  '')],
            JObj [(''title'', JStr ''C''), (''description'', JStr ''<p>New</p> '')],
            JObj [(''title'', JStr ''D''), (''description'', JStr ''<p>Newer</p>'')]]"

definition example_history :: "json list" where
  "example_history = [JObj [(''title'', JStr ''A''), (''description'', JStr ''<p>Old</p>  ''),
                  (''image'', JStr [])]]"

section \<open>History ledger\<close>

text \<open>
  The ledger is one file: \<^verbatim>\<open>None\<close> when \<^verbatim>\<open>history_file.exists()\<close> is false, otherwise
  the bytes it holds. The file system is taken to work: the directory of the script is
  there, and a file in it can be opened, read, created and written. The standard library
  is taken as given, each of its functions returning a value or raising:
  \<^item> \<^verbatim>\<open>read_text(encoding="utf-8")\<close> decodes the bytes of the file, or raises
    \<^verbatim>\<open>UnicodeDecodeError\<close>;
  \<^item> \<^verbatim>\<open>json.loads\<close> parses a text, or raises \<^verbatim>\<open>JSONDecodeError\<close>, a \<^verbatim>\<open>ValueError\<close>
    that is not one (an integer of too many digits) or \<^verbatim>\<open>RecursionError\<close>;
  \<^item> \<^verbatim>\<open>json.dumps(..., ensure_ascii=False, indent=2)\<close> prints a value, or raises;
  \<^item> the encoder of \<^verbatim>\<open>write_text(..., encoding="utf-8")\<close> turns a text into the bytes to
    write, or raises \<^verbatim>\<open>UnicodeEncodeError\<close> (on a lone surrogate);
  \<^item> \<^verbatim>\<open>str(item)\<close> of a value that is not a string is given by a function \<^verbatim>\<open>repr\<close>.

  These exceptions are a type of their own: none of them is one of Selenium's.
\<close>

datatype stdlib_error =
    JSONDecode
  | UnicodeDecode
  | UnicodeEncode
  | ValueErr
  | RecursionErr

fun exn_of :: "stdlib_error \<Rightarrow> exn" where
  "exn_of JSONDecode = JSONDecodeError"
| "exn_of UnicodeDecode = UnicodeDecodeError"
| "exn_of UnicodeEncode = UnicodeEncodeError"
| "exn_of ValueErr = ValueError"
| "exn_of RecursionErr = RecursionError"

record stdlib =
  lib_read_text :: "bytes \<Rightarrow> stdlib_error + string"
  lib_loads :: "string \<Rightarrow> stdlib_error + json"
  lib_dumps :: "json \<Rightarrow> stdlib_error + string"
  lib_encode :: "string \<Rightarrow> stdlib_error + bytes"
  lib_repr :: "json \<Rightarrow> string"

fun is_dict :: "json \<Rightarrow> bool" where
  "is_dict (JObj d) = True"
| "is_dict _ = False"

fun py_str :: "(json \<Rightarrow> string) \<Rightarrow> json \<Rightarrow> string" where
  "py_str repr (JStr s) = s"
| "py_str repr v = repr v"

text \<open>The entry built for one item of the legacy list.\<close>

definition legacy_entry :: "string \<Rightarrow> json" where
  "legacy_entry description =
     JObj [(''title'', JStr []), (''description'', JStr description), (''image'', JStr [])]"

text \<open>
  \<^verbatim>\<open>load_post_history\<close>. Both \<^verbatim>\<open>read_text\<close> and \<^verbatim>\<open>json.loads\<close> are inside the
  \<^verbatim>\<open>try\<close>, whose only handler is \<^verbatim>\<open>except json.JSONDecodeError: return []\<close>; every
  other exception leaves the function.
\<close>

definition load_post_history :: "stdlib \<Rightarrow> bytes option \<Rightarrow> stdlib_error + json list" where
  "load_post_history L history_file =
     (case history_file of
        None \<Rightarrow> Inr []
      | Some content \<Rightarrow>
          (case (case lib_read_text L content of
                   Inl e \<Rightarrow> Inl e
                 | Inr text \<Rightarrow> lib_loads L text) of
             Inl e \<Rightarrow> if e = JSONDecode then Inr [] else Inl e
           | Inr (JArr entries) \<Rightarrow> Inr (filter is_dict entries)
           | Inr (JObj d) \<Rightarrow>
               (case map_of d ''descriptions'' of
                  Some (JArr items) \<Rightarrow>
                    Inr (map (\<lambda>item. legacy_entry (strip (py_str (lib_repr L) item))) items)
                | _ \<Rightarrow> Inr [])
           | Inr _ \<Rightarrow> Inr []))"

text \<open>
  \<^verbatim>\<open>history_file.write_text(text, encoding="utf-8")\<close> opens the file for writing, which
  creates it or empties it, and then encodes the text and writes the bytes: when the
  encoder raises, the file has been emptied and stays empty. The result is the exception
  raised, if any, and the file.
\<close>

definition write_text :: "stdlib \<Rightarrow> string \<Rightarrow> stdlib_error option \<times> bytes option" where
  "write_text L text =
     (case lib_encode L text of
        Inl e \<Rightarrow> (Some e, Some [])
      | Inr content \<Rightarrow> (None, Some content))"

text \<open>
  \<^verbatim>\<open>append_post_history\<close> reads the history, puts the entry in front and writes the
  whole list back. The directory of the file is the one of the script, so that
  \<^verbatim>\<open>mkdir(parents=True, exist_ok=True)\<close> finds it there and does nothing. An exception
  of \<^verbatim>\<open>load_post_history\<close> or of \<^verbatim>\<open>json.dumps\<close> leaves the function before the file
  is opened, so that the file is as it was.
\<close>

definition append_post_history ::
  "stdlib \<Rightarrow> bytes option \<Rightarrow> json \<Rightarrow> stdlib_error option \<times> bytes option" where
  "append_post_history L history_file entry =
     (case load_post_history L history_file of
        Inl e \<Rightarrow> (Some e, history_file)
      | Inr history \<Rightarrow>
          (let new_history = entry # history
           in case lib_dumps L (JArr new_history) of
                Inl e \<Rightarrow> (Some e, history_file)
              | Inr text \<Rightarrow> write_text L text))"

text \<open>
  A toy library to run the ledger on. What a text parses to and what a value prints as
  are read from tables, the texts being names for the JSON texts. A file decodes to
  itself unless it holds the byte \<^verbatim>\<open>0xFF\<close>, which no UTF-8 text has. The strings of this
  model have no character that UTF-8 cannot encode (in Python, a lone surrogate): the
  text \<^verbatim>\<open>unencodable\<close> stands for a text that holds one, and the encoder rejects it.
\<close>

definition example_legacy :: json where
  "example_legacy = JObj [(''descriptions'', JArr [JStr ''a'', JStr ''b''])]"

definition example_padded_legacy :: json where
  "example_padded_legacy = JObj [(''descriptions'', JArr [JStr '' a''])]"

text \<open>An entry that stands for one whose description holds a lone surrogate.\<close>

definition example_unencodable :: json where
  "example_unencodable = JObj [(''title'', JStr ''C''), (''description'', JStr ''lone surrogate''),
                               (''image'', JStr [])]"

definition example_loads :: "string \<Rightarrow> stdlib_error + json" where
  "example_loads text =
     (if text = ''legacy'' then Inr example_legacy
      else if text = ''padded'' then Inr example_padded_legacy
      else if text = ''list'' then Inr (JArr (JInt 7 # example_history))
      else if text = ''new'' then Inr (JArr (example_feed ! 2 # example_history))
      else if text = ''digits'' then Inl ValueErr
      else Inl JSONDecode)"

definition example_dumps :: "json \<Rightarrow> stdlib_error + string" where
  "example_dumps v =
     (if v = JArr (example_feed ! 2 # example_history) then Inr ''new''
      else if v = JArr (example_unencodable # example_history) then Inr ''unencodable''
      else Inr ''other'')"

definition example_lib :: stdlib where
  "example_lib = \<lparr>
     lib_read_text = (\<lambda>content. if CHR 0xFF \<in> set content then Inl UnicodeDecode else Inr content),
     lib_loads = example_loads,
     lib_dumps = example_dumps,
     lib_encode = (\<lambda>text. if text = ''unencodable'' then Inl UnicodeEncode else Inr text),
     lib_repr = (\<lambda>v. []) \<rparr>"

section \<open>Typing into the editor\<close>

text \<open>
  \<^verbatim>\<open>element.send_keys(*args)\<close> takes special keys (\<^verbatim>\<open>Keys.CONTROL\<close>, ...) and
  strings. The element is the list of the calls it has received, each call its argument
  list; a call is taken to return normally.
\<close>

datatype key = CONTROL | DELETE | SHIFT | ENTER

datatype keys_arg = Special key | Chars string

type_synonym element = "keys_arg list list"

definition send_keys :: "element \<Rightarrow> keys_arg list \<Rightarrow> element" where
  "send_keys element args = element @ [args]"

text \<open>
  The loop \<^verbatim>\<open>for index, line in enumerate(lines)\<close>, with \<^verbatim>\<open>n\<close> for
  \<^verbatim>\<open>len(lines)\<close>.
\<close>

fun input_lines :: "int \<Rightarrow> nat \<Rightarrow> string list \<Rightarrow> element \<Rightarrow> element" where
  "input_lines n index [] element = element"
| "input_lines n index (line # rest) element =
     (let element1 = send_keys element [Chars line];
          element2 = (if int index < n - 1
                      then send_keys element1 [Special SHIFT, Special ENTER]
                      else element1)
      in input_lines n (Suc index) rest element2)"

definition input_multiline_text :: "element \<Rightarrow> string list \<Rightarrow> element" where
  "input_multiline_text element lines =
     (if lines = [] then element
      else
        let element1 = send_keys element [Special CONTROL, Chars ''a''];
            element2 = send_keys element1 [Special DELETE]
        in input_lines (int (length lines)) 0 lines element2)"

text \<open>
  The lines, each typed as one call, with a Shift+Enter call between two consecutive
  lines and none after the last.
\<close>

fun soft_break_separated :: "string list \<Rightarrow> keys_arg list list" where
  "soft_break_separated [] = []"
| "soft_break_separated [line] = [[Chars line]]"
| "soft_break_separated (line # rest) =
     [Chars line] # [Special SHIFT, Special ENTER] # soft_break_separated rest"

section \<open>HTML paragraphs to lines\<close>

text \<open>
  The regular expressions of \<^verbatim>\<open>strip_html_paragraphs\<close>, each written out as the
  matcher it stands for. \<^verbatim>\<open><p>\<close> and \<^verbatim>\<open></p>\<close> are matched with
  \<^verbatim>\<open>re.IGNORECASE\<close>: the letter may be \<^verbatim>\<open>p\<close> or \<^verbatim>\<open>P\<close>.
\<close>

definition is_p :: "char \<Rightarrow> bool" where
  "is_p c = (c = CHR ''p'' \<or> c = CHR ''P'')"

text \<open>\<^verbatim>\<open><p>\<close> at the start of the string: what follows it.\<close>

fun match_open :: "string \<Rightarrow> string option" where
  "match_open (a # b # c # rest) =
     (if a = CHR ''<'' \<and> is_p b \<and> c = CHR ''>'' then Some rest else None)"
| "match_open _ = None"

text \<open>\<^verbatim>\<open></p>\<close> at the start of the string: what follows it.\<close>

fun match_close :: "string \<Rightarrow> string option" where
  "match_close (a # b # c # d # rest) =
     (if a = CHR ''<'' \<and> b = CHR ''/'' \<and> is_p c \<and> d = CHR ''>'' then Some rest else None)"
| "match_close _ = None"

text \<open>
  \<^verbatim>\<open>(.*?)</p>\<close> with \<^verbatim>\<open>re.DOTALL\<close>: the shortest run of any characters that is
  followed by \<^verbatim>\<open></p>\<close>, and what follows that.
\<close>

fun lazy_body :: "string \<Rightarrow> (string \<times> string) option" where
  "lazy_body [] = None"
| "lazy_body (c # cs) =
     (case match_close (c # cs) of
        Some rest \<Rightarrow> Some ([], rest)
      | None \<Rightarrow>
          (case lazy_body cs of
             None \<Rightarrow> None
           | Some (body, rest) \<Rightarrow> Some (c # body, rest)))"

lemma match_open_length: "match_open s = Some rest \<Longrightarrow> length rest < length s"
  by (induction s rule: match_open.induct) (auto split: if_splits)

lemma match_close_length: "match_close s = Some rest \<Longrightarrow> length rest < length s"
  by (induction s rule: match_close.induct) (auto split: if_splits)

lemma lazy_body_length: "lazy_body s = Some (body, rest) \<Longrightarrow> length rest < length s"
proof (induction s arbitrary: body)
  case Nil
  then show ?case by simp
next
  case (Cons c cs)
  show ?case
  proof (cases "match_close (c # cs)")
    case (Some r)
    with Cons.prems match_close_length [OF Some] show ?thesis by simp
  next
    case None
    with Cons.prems obtain b where "lazy_body cs = Some (b, rest)"
      by (auto split: option.splits)
    from Cons.IH [OF this] show ?thesis by simp
  qed
qed

text \<open>
  \<^verbatim>\<open>re.findall(r"<p>(.*?)</p>", html_text, flags=re.DOTALL | re.IGNORECASE)\<close>: at each
  position, from left to right, a match if there is one, the search going on after it;
  otherwise one character further.
\<close>

function findall_p :: "string \<Rightarrow> string list" where
  "findall_p [] = []"
| "findall_p (c # cs) =
     (case match_open (c # cs) of
        None \<Rightarrow> findall_p cs
      | Some after_open \<Rightarrow>
          (case lazy_body after_open of
             None \<Rightarrow> findall_p cs
           | Some (body, rest) \<Rightarrow> body # findall_p rest))"
  by pat_completeness auto
termination
proof (relation "measure length")
  fix c cs after_open x body rest
  assume "match_open (c # cs) = Some after_open" "lazy_body after_open = Some x" "(body, rest) = x"
  then show "(rest, c # cs) \<in> measure length"
    using match_open_length [of "c # cs" after_open] lazy_body_length [of after_open body rest]
    by simp
qed auto

text \<open>
  \<^verbatim>\<open><[^>]+>\<close> at the start of the string: \<^verbatim>\<open><\<close>, one or more characters other than
  \<^verbatim>\<open>>\<close> (as many as there are), then \<^verbatim>\<open>>\<close>; what follows it.
\<close>

fun match_tag :: "string \<Rightarrow> string option" where
  "match_tag [] = None"
| "match_tag (c # cs) =
     (if c = CHR ''<'' \<and> takeWhile (\<lambda>x. x \<noteq> CHR ''>'') cs \<noteq> []
         \<and> dropWhile (\<lambda>x. x \<noteq> CHR ''>'') cs \<noteq> []
      then Some (tl (dropWhile (\<lambda>x. x \<noteq> CHR ''>'') cs))
      else None)"

lemma match_tag_length: "match_tag s = Some rest \<Longrightarrow> length rest < length s"
proof (cases s)
  case Nil
  assume "match_tag s = Some rest"
  with Nil show ?thesis by simp
next
  case (Cons c cs)
  assume "match_tag s = Some rest"
  with Cons have "rest = tl (dropWhile (\<lambda>x. x \<noteq> CHR ''>'') cs)"
    by (auto split: if_splits)
  with Cons show ?thesis
    using length_dropWhile_le [of "\<lambda>x. x \<noteq> CHR ''>''" cs] by simp
qed

text \<open>\<^verbatim>\<open>re.sub(r"<[^>]+>", "", s)\<close>: every match, from left to right, is dropped.\<close>

function remove_tags :: "string \<Rightarrow> string" where
  "remove_tags [] = []"
| "remove_tags (c # cs) =
     (case match_tag (c # cs) of
        None \<Rightarrow> c # remove_tags cs
      | Some rest \<Rightarrow> remove_tags rest)"
  by pat_completeness auto
termination
proof (relation "measure length")
  fix c cs rest
  assume "match_tag (c # cs) = Some rest"
  then show "(rest, c # cs) \<in> measure length"
    using match_tag_length [of "c # cs" rest] by simp
qed auto

text \<open>
  The loop over the paragraphs, \<^verbatim>\<open>lines\<close> being the list built so far.
  \<^verbatim>\<open>html.unescape\<close> is the standard library's and is taken as a parameter.
\<close>

fun clean_paragraphs :: "(string \<Rightarrow> string) \<Rightarrow> string list \<Rightarrow> string list \<Rightarrow> string list" where
  "clean_paragraphs unescape [] lines = lines"
| "clean_paragraphs unescape (paragraph # rest) lines =
     (let clean = strip (unescape (remove_tags paragraph))
      in if clean \<noteq> [] then clean_paragraphs unescape rest (lines @ [clean])
         else clean_paragraphs unescape rest lines)"

definition strip_html_paragraphs :: "(string \<Rightarrow> string) \<Rightarrow> string \<Rightarrow> string list" where
  "strip_html_paragraphs unescape html_text =
     (let paragraphs = findall_p html_text
      in if paragraphs = []
         then (if html_text \<noteq> [] then [strip (unescape (remove_tags html_text))] else [])
         else clean_paragraphs unescape paragraphs [])"

text \<open>
  What the matchers are meant to find, said without them: an opening and a closing
  paragraph tag, a paragraph block somewhere in a string, and a tag somewhere in a
  string.
\<close>

definition opens :: "string \<Rightarrow> bool" where
  "opens t = (t = ''<p>'' \<or> t = ''<P>'')"

definition closes :: "string \<Rightarrow> bool" where
  "closes t = (t = ''</p>'' \<or> t = ''</P>'')"

definition has_open :: "string \<Rightarrow> bool" where
  "has_open s = (\<exists>a t b. opens t \<and> s = a @ t @ b)"

definition has_close :: "string \<Rightarrow> bool" where
  "has_close s = (\<exists>a t b. closes t \<and> s = a @ t @ b)"

definition p_block :: "string \<Rightarrow> bool" where
  "p_block s = (\<exists>a t1 b t2 c. opens t1 \<and> closes t2 \<and> s = a @ t1 @ b @ t2 @ c)"

definition has_tag :: "string \<Rightarrow> bool" where
  "has_tag s = (\<exists>a body c. body \<noteq> [] \<and> CHR ''>'' \<notin> set body \<and>
     s = a @ CHR ''<'' # body @ CHR ''>'' # c)"

text \<open>Two texts to run the conversion on.\<close>

definition example_html :: string where
  "example_html = ''<p>Hello</p> x <P> a<b>c</b> </p><p>  </P>''"

definition example_plain :: string where
  "example_plain = ''plain <i>text</i> ''"

section \<open>Secret store\<close>

text \<open>
  The cryptography is the library's and is taken as given. \<^verbatim>\<open>base64.b64decode\<close> of a
  JSON value returns bytes or raises; \<^verbatim>\<open>PBKDF2HMAC(SHA256, length, salt,
  iterations).derive(material)\<close> returns the key; \<^verbatim>\<open>AESGCM(key).decrypt(nonce, data,
  None)\<close> returns the plaintext, or raises \<^verbatim>\<open>InvalidTag\<close> when the authentication tag
  does not verify. \<^verbatim>\<open>json.load\<close> and \<^verbatim>\<open>json.loads\<close> are a function from text to a
  value, \<^verbatim>\<open>None\<close> where they raise; \<^verbatim>\<open>load_cookies\<close> lets through whatever they raise,
  which is written \<^verbatim>\<open>JSONDecodeError\<close>.
\<close>

type_synonym json_loads = "string \<Rightarrow> json option"

record crypto =
  b64decode :: "json \<Rightarrow> exn + bytes"
  pbkdf2_hmac_sha256 :: "nat \<Rightarrow> bytes \<Rightarrow> nat \<Rightarrow> bytes \<Rightarrow> bytes"
  aesgcm_decrypt :: "bytes \<Rightarrow> bytes \<Rightarrow> bytes \<Rightarrow> exn + bytes"
  utf8_encode :: "string \<Rightarrow> bytes"
  utf8_decode :: "bytes \<Rightarrow> exn + string"

definition PBKDF2_ITERATIONS :: nat where
  "PBKDF2_ITERATIONS = 200000"

definition derive_key :: "crypto \<Rightarrow> string \<Rightarrow> bytes \<Rightarrow> bytes" where
  "derive_key lib password salt =
     pbkdf2_hmac_sha256 lib 32 salt PBKDF2_ITERATIONS (utf8_encode lib password)"

text \<open>
  \<^verbatim>\<open>base64.b64decode(payload[k])\<close> inside the \<^verbatim>\<open>try\<close> whose handler turns a
  \<^verbatim>\<open>KeyError\<close> into a \<^verbatim>\<open>ValueError\<close>.
\<close>

definition payload_field :: "crypto \<Rightarrow> (string \<times> json) list \<Rightarrow> string \<Rightarrow> exn + bytes" where
  "payload_field lib payload k =
     (case (case map_of payload k of None \<Rightarrow> Inl KeyError | Some v \<Rightarrow> b64decode lib v) of
        Inl KeyError \<Rightarrow> Inl ValueError
      | r \<Rightarrow> r)"

definition decrypt_payload :: "crypto \<Rightarrow> (string \<times> json) list \<Rightarrow> string \<Rightarrow> exn + bytes" where
  "decrypt_payload lib payload password =
     (case payload_field lib payload ''s'' of
        Inl e \<Rightarrow> Inl e
      | Inr salt \<Rightarrow>
          (case payload_field lib payload ''n'' of
             Inl e \<Rightarrow> Inl e
           | Inr nonce \<Rightarrow>
               (case payload_field lib payload ''ct'' of
                  Inl e \<Rightarrow> Inl e
                | Inr ciphertext \<Rightarrow>
                    aesgcm_decrypt lib (derive_key lib password salt) nonce ciphertext)))"

text \<open>
  \<^verbatim>\<open>load_cookies\<close>: the file is \<^verbatim>\<open>None\<close> when it does not exist, the password is
  what \<^verbatim>\<open>os.getenv("DECRYPT_KEY")\<close> returns.
\<close>

definition load_cookies ::
  "crypto \<Rightarrow> json_loads \<Rightarrow> string option \<Rightarrow> string option \<Rightarrow> exn + json list" where
  "load_cookies lib loads cookie_file getenv =
     (case cookie_file of
        None \<Rightarrow> Inl FileNotFoundError
      | Some text \<Rightarrow>
          (case getenv of
             None \<Rightarrow> Inl RuntimeError
           | Some password \<Rightarrow>
               if password = [] then Inl RuntimeError
               else
                 (case loads text of
                    None \<Rightarrow> Inl JSONDecodeError
                  | Some (JObj payload) \<Rightarrow>
                      (case decrypt_payload lib payload password of
                         Inl e \<Rightarrow> Inl e
                       | Inr plaintext \<Rightarrow>
                           (case utf8_decode lib plaintext of
                              Inl e \<Rightarrow> Inl e
                            | Inr decoded \<Rightarrow>
                                (case loads decoded of
                                   None \<Rightarrow> Inl JSONDecodeError
                                 | Some (JArr cookies) \<Rightarrow> Inr cookies
                                 | Some _ \<Rightarrow> Inl ValueError)))
                  | Some _ \<Rightarrow> Inl ValueError)))"

text \<open>
  A toy library to run the store on: base64 is the identity on strings, the key is the
  password followed by the salt, and a ciphertext is accepted under the key
  \<^verbatim>\<open>"pwsalt"\<close> only.
\<close>

definition example_crypto :: crypto where
  "example_crypto = \<lparr>
     b64decode = (\<lambda>v. case v of JStr s \<Rightarrow> Inr s | _ \<Rightarrow> Inl TypeError),
     pbkdf2_hmac_sha256 = (\<lambda>n salt iterations material. material @ salt),
     aesgcm_decrypt = (\<lambda>k nonce data. if k = ''pwsalt'' then Inr data else Inl InvalidTag),
     utf8_encode = (\<lambda>s. s),
     utf8_decode = (\<lambda>b. Inr b) \<rparr>"

definition example_blob :: "(string \<times> json) list" where
  "example_blob = [(''s'', JStr ''salt''), (''n'', JStr ''nonce''), (''ct'', JStr ''cookies'')]"

definition example_cookie_loads :: json_loads where
  "example_cookie_loads t =
     (if t = ''blob'' then Some (JObj example_blob)
      else if t = ''cookies'' then Some (JArr [JObj [(''name'', JStr ''c_user'')]])
      else None)"

section \<open>Resolution: focusing the editor\<close>

text \<open>
  \<^verbatim>\<open>focus_text_field\<close> talks to the browser and reads the clock. The browser and the
  clock are a world \<^verbatim>\<open>'w\<close> that every call may change; what a call does is given by
  the driver, which is not part of the program:
  \<^item> \<^verbatim>\<open>time_now\<close> is \<^verbatim>\<open>time.time()\<close>, in milliseconds;
  \<^item> \<^verbatim>\<open>sleep\<close> is \<^verbatim>\<open>time.sleep\<close>;
  \<^item> \<^verbatim>\<open>wait_presence\<close> is
    \<^verbatim>\<open>WebDriverWait(driver, 2).until(EC.presence_of_element_located(locator))\<close>;
  \<^item> \<^verbatim>\<open>execute_script\<close> is \<^verbatim>\<open>driver.execute_script\<close> with one of the four scripts
    and the element, returning the truth value of the script's result;
  \<^item> \<^verbatim>\<open>click\<close> is \<^verbatim>\<open>element.click()\<close>.
\<close>

datatype mechanism = CSS_SELECTOR | XPATH

type_synonym locator = "mechanism \<times> string"

datatype script = ScrollIntoView | ScriptClick | ScriptFocus | IsActiveElement

record ('w, 'el) driver =
  time_now :: "'w \<Rightarrow> int"
  sleep :: "int \<Rightarrow> 'w \<Rightarrow> 'w"
  wait_presence :: "locator \<Rightarrow> 'w \<Rightarrow> (exn + 'el) \<times> 'w"
  execute_script :: "script \<Rightarrow> 'el \<Rightarrow> 'w \<Rightarrow> (exn + bool) \<times> 'w"
  click :: "'el \<Rightarrow> 'w \<Rightarrow> (exn + unit) \<times> 'w"

definition LEXICAL_EDITOR_LOCATORS :: "locator list" where
  "LEXICAL_EDITOR_LOCATORS =
     [(CSS_SELECTOR, ''[data-lexical-editor] [data-lexical-text='true']''),
      (CSS_SELECTOR, ''div[role='dialog'] div[role='textbox'][contenteditable='true']''),
      (CSS_SELECTOR, ''div[role='dialog'] div[role='textbox']'')]"

text \<open>How one pass of the \<^verbatim>\<open>try\<close> body for one locator ends.\<close>

datatype 'el attempt = Focused 'el | Continue | Propagate exn

text \<open>\<^verbatim>\<open>except (TimeoutException, StaleElementReferenceException): continue\<close>\<close>

definition locator_handler :: "exn \<Rightarrow> 'el attempt" where
  "locator_handler e =
     (if e = TimeoutException \<or> e = StaleElementReferenceException then Continue
      else Propagate e)"

text \<open>
  \<^verbatim>\<open>element.click()\<close> with its own handler: an intercepted click or an element that is
  not interactable is clicked by script instead.
\<close>

definition click_or_script :: "('w, 'el) driver \<Rightarrow> 'el \<Rightarrow> 'w \<Rightarrow> (exn + unit) \<times> 'w" where
  "click_or_script D element w =
     (case click D element w of
        (Inr u, w1) \<Rightarrow> (Inr (), w1)
      | (Inl e, w1) \<Rightarrow>
          (case e of
             ElementClickInterceptedException \<Rightarrow>
               (case execute_script D ScriptClick element w1 of
                  (Inl e', w2) \<Rightarrow> (Inl e', w2)
                | (Inr b, w2) \<Rightarrow> (Inr (), w2))
           | ElementNotInteractableException msg \<Rightarrow>
               (case execute_script D ScriptClick element w1 of
                  (Inl e', w2) \<Rightarrow> (Inl e', w2)
                | (Inr b, w2) \<Rightarrow> (Inr (), w2))
           | _ \<Rightarrow> (Inl e, w1)))"

text \<open>The body of \<^verbatim>\<open>for locator in LEXICAL_EDITOR_LOCATORS\<close> for one locator.\<close>

definition try_locator :: "('w, 'el) driver \<Rightarrow> locator \<Rightarrow> 'w \<Rightarrow> 'el attempt \<times> 'w" where
  "try_locator D locator w =
     (case wait_presence D locator w of
        (Inl e, w1) \<Rightarrow> (locator_handler e, w1)
      | (Inr element, w1) \<Rightarrow>
          (case execute_script D ScrollIntoView element w1 of
             (Inl e, w2) \<Rightarrow> (locator_handler e, w2)
           | (Inr b, w2) \<Rightarrow>
               (case click_or_script D element w2 of
                  (Inl e, w3) \<Rightarrow> (locator_handler e, w3)
                | (Inr u, w3) \<Rightarrow>
                    (case execute_script D ScriptFocus element w3 of
                       (Inl e, w4) \<Rightarrow> (locator_handler e, w4)
                     | (Inr b', w4) \<Rightarrow>
                         (case execute_script D IsActiveElement element w4 of
                            (Inl e, w5) \<Rightarrow> (locator_handler e, w5)
                          | (Inr is_active, w5) \<Rightarrow>
                              if is_active then (Focused element, w5) else (Continue, w5))))))"

text \<open>The \<^verbatim>\<open>for\<close> loop: the locators in order, until one returns or raises.\<close>

fun try_locators :: "('w, 'el) driver \<Rightarrow> locator list \<Rightarrow> 'w \<Rightarrow> 'el attempt \<times> 'w" where
  "try_locators D [] w = (Continue, w)"
| "try_locators D (locator # rest) w =
     (case try_locator D locator w of
        (Continue, w1) \<Rightarrow> try_locators D rest w1
      | (r, w1) \<Rightarrow> (r, w1))"

text \<open>
  The \<^verbatim>\<open>while time.time() < end_time\<close> loop. The clock is the driver's, so the loop
  need not end: \<^verbatim>\<open>None\<close> is the run that never returns.
\<close>

partial_function (option) focus_loop ::
  "('w, 'el) driver \<Rightarrow> locator list \<Rightarrow> int \<Rightarrow> int \<Rightarrow> 'w \<Rightarrow> ((exn + 'el) \<times> 'w) option" where
  "focus_loop D locators end_time poll_interval w =
     (if time_now D w < end_time then
        (case try_locators D locators w of
           (Focused element, w1) \<Rightarrow> Some (Inr element, w1)
         | (Propagate e, w1) \<Rightarrow> Some (Inl e, w1)
         | (Continue, w1) \<Rightarrow> focus_loop D locators end_time poll_interval (sleep D poll_interval w1))
      else Some (Inl TimeoutException, w))"

text \<open>
  \<^verbatim>\<open>focus_text_field\<close> over a list of locators; the program's own list is
  \<^verbatim>\<open>LEXICAL_EDITOR_LOCATORS\<close>. Times are in milliseconds: the defaults are
  \<^verbatim>\<open>timeout = 10000\<close> and \<^verbatim>\<open>poll_interval = 500\<close>.
\<close>

definition focus_with :: 
  "('w, 'el) driver \<Rightarrow> locator list \<Rightarrow> int \<Rightarrow> int \<Rightarrow> 'w \<Rightarrow> ((exn + 'el) \<times> 'w) option" where
  "focus_with D locators timeout poll_interval w =
     focus_loop D locators (time_now D w + timeout) poll_interval w"

definition focus_text_field ::
  "('w, 'el) driver \<Rightarrow> int \<Rightarrow> int \<Rightarrow> 'w \<Rightarrow> ((exn + 'el) \<times> 'w) option" where
  "focus_text_field D timeout poll_interval w =
     focus_with D LEXICAL_EDITOR_LOCATORS timeout poll_interval w"

text \<open>
  What the claims about resolution speak of. A locator never matches when waiting for it
  always times out; \<^verbatim>\<open>after_timeouts\<close> is the world after waiting in vain for each
  locator of a list. The loop makes passes over the locators: \<^verbatim>\<open>pass_start\<close> is the world
  in which pass number \<^verbatim>\<open>k\<close> starts when the passes before it went through all locators
  without an element and without an exception, and \<^verbatim>\<open>passes_continue\<close> says that they
  did, each of them started before the deadline.
\<close>

definition never_matches :: "('w, 'el) driver \<Rightarrow> locator \<Rightarrow> bool" where
  "never_matches D l = (\<forall>w. fst (wait_presence D l w) = Inl TimeoutException)"

fun after_timeouts :: "('w, 'el) driver \<Rightarrow> locator list \<Rightarrow> 'w \<Rightarrow> 'w" where
  "after_timeouts D [] w = w"
| "after_timeouts D (l # ls) w = after_timeouts D ls (snd (wait_presence D l w))"

fun pass_start :: "('w, 'el) driver \<Rightarrow> locator list \<Rightarrow> int \<Rightarrow> nat \<Rightarrow> 'w \<Rightarrow> 'w" where
  "pass_start D ls poll_interval 0 w = w"
| "pass_start D ls poll_interval (Suc k) w =
     pass_start D ls poll_interval k (sleep D poll_interval (snd (try_locators D ls w)))"

fun passes_continue ::
  "('w, 'el) driver \<Rightarrow> locator list \<Rightarrow> int \<Rightarrow> int \<Rightarrow> nat \<Rightarrow> 'w \<Rightarrow> bool" where
  "passes_continue D ls end_time poll_interval 0 w = True"
| "passes_continue D ls end_time poll_interval (Suc k) w =
     (time_now D w < end_time \<and> fst (try_locators D ls w) = Continue \<and>
      passes_continue D ls end_time poll_interval k
        (sleep D poll_interval (snd (try_locators D ls w))))"

text \<open>
  Pages to run the resolution on, the world being the clock alone. The element of a
  locator appears at a given time, or never, and stays; a wait returns it as soon as it
  is there and gives up after its two seconds; the element found is named by its
  locator, and whatever is found verifies as focused.
\<close>

definition timed_driver :: "(locator \<Rightarrow> int option) \<Rightarrow> (int, locator) driver" where
  "timed_driver appears = \<lparr>
     time_now = (\<lambda>w. w),
     sleep = (\<lambda>d w. w + d),
     wait_presence = (\<lambda>l w.
        case appears l of
          None \<Rightarrow> (Inl TimeoutException, w + 2000)
        | Some t \<Rightarrow> if t \<le> w + 2000 then (Inr l, max w t)
                    else (Inl TimeoutException, w + 2000)),
     execute_script = (\<lambda>s element w. (Inr (s = IsActiveElement), w)),
     click = (\<lambda>element w. (Inr (), w)) \<rparr>"

definition locator_a :: locator where
  "locator_a = (CSS_SELECTOR, ''#a'')"

definition locator_b :: locator where
  "locator_b = (CSS_SELECTOR, ''#b'')"

text \<open>The page on which \<^verbatim>\<open>#b\<close> appears at the given time and nothing else ever does.\<close>

definition b_appears_at :: "int \<Rightarrow> (int, locator) driver" where
  "b_appears_at t = timed_driver (\<lambda>l. if l = locator_b then Some t else None)"

definition empty_page :: "(int, locator) driver" where
  "empty_page = timed_driver (\<lambda>l. None)"

text \<open>
  Every pass that starts before the deadline finds nothing, and lasts, its sleep
  included, at least the poll interval and at most \<^verbatim>\<open>pass_time\<close>.
\<close>

definition passes_find_nothing ::
  "('w, 'el) driver \<Rightarrow> locator list \<Rightarrow> int \<Rightarrow> int \<Rightarrow> int \<Rightarrow> 'w \<Rightarrow> bool" where
  "passes_find_nothing D ls end_time poll_interval pass_time w =
     (\<forall>k. time_now D (pass_start D ls poll_interval k w) < end_time \<longrightarrow>
        fst (try_locators D ls (pass_start D ls poll_interval k w)) = Continue \<and>
        time_now D (pass_start D ls poll_interval k w) + poll_interval
          \<le> time_now D (pass_start D ls poll_interval (Suc k) w) \<and>
        time_now D (pass_start D ls poll_interval (Suc k) w)
          \<le> time_now D (pass_start D ls poll_interval k w) + pass_time)"

section \<open>The publish workflow\<close>

text \<open>
  \<^verbatim>\<open>main\<close> is a sequence of calls. A call that leaves the program (the browser, the
  network, the file system of the temporary directory, and the helpers built on them)
  returns or raises as the environment says; \<^verbatim>\<open>main\<close> itself decides what happens
  next. Each call site of \<^verbatim>\<open>main\<close> has a name; \<^verbatim>\<open>main\<close> has no loop, so a site is
  reached at most once in a run. The last five names are the computations of
  \<^verbatim>\<open>main\<close> that are not taken from the environment: what they return or raise is
  computed, the last two from the ledger file and the standard library.
\<close>

datatype call =
    LoadCookies
  | CreateDriver
  | EnsureTempDir
  | FetchGithubContent
  | ClearTempDirNoContent
  | DriverGet
  | ApplyCookies
  | Refresh
  | DownloadPageSource
  | DismissNotificationPopup
  | OpenProfileMenu
  | SelectPageFromMenu
  | WaitPageHeader
  | ClickCreatePost
  | WaitPopup
  | DownloadPopupSource
  | FocusTextField
  | InputMultilineText
  | DownloadImage
  | UploadMedia
  | ClickNext
  | ClickPost
  | FetchPrimaryFeedText
  | ClearTempDirDone
  | Quit
  | LoadContentItems
  | FindNextContentItem
  | BuildEntry
  | LoadPostHistory
  | AppendPostHistory

text \<open>
  The environment of one run: what each call does, the text that
  \<^verbatim>\<open>fetch_github_content\<close> reads from the page, whether
  \<^verbatim>\<open>download_image_to_temp\<close> returns a path, and the standard library.
\<close>

record env =
  outcome :: "call \<Rightarrow> exn option"
  github_text :: string
  image_found :: bool
  library :: stdlib
  lib_unescape :: "string \<Rightarrow> string"

text \<open>What a run leaves behind: the calls in order, and the ledger writes among them.\<close>

datatype event = Returned call | Raised call exn | Recorded json

text \<open>
  The local variables of \<^verbatim>\<open>main\<close> that later statements read, the ledger file, and
  the events so far.
\<close>

record frame =
  driver_open :: bool
  content_items :: "json list"
  post_history_entries :: "json list"
  candidate :: json
  description_html :: string
  description_lines :: "string list"
  posted_history_file :: "bytes option"
  events :: "event list"

text \<open>A statement runs on to the next one, returns from \<^verbatim>\<open>main\<close>, or raises.\<close>

datatype flow = Next | Return | Raise exn

type_synonym stmt = "frame \<Rightarrow> flow \<times> frame"

definition log :: "event \<Rightarrow> frame \<Rightarrow> frame" where
  "log ev f = f\<lparr>events := events f @ [ev]\<rparr>"

text \<open>A call that \<^verbatim>\<open>main\<close> does not guard.\<close>

definition call_stmt :: "env \<Rightarrow> call \<Rightarrow> stmt" where
  "call_stmt E c f =
     (case outcome E c of
        None \<Rightarrow> (Next, log (Returned c) f)
      | Some e \<Rightarrow> (Raise e, log (Raised c e) f))"

text \<open>\<^verbatim>\<open>try: ... except TimeoutException: print(...); return\<close>\<close>

definition guarded :: "stmt \<Rightarrow> stmt" where
  "guarded st f =
     (case st f of
        (Raise e, f1) \<Rightarrow> if e = TimeoutException then (Return, f1) else (Raise e, f1)
      | r \<Rightarrow> r)"

text \<open>Statements one after the other.\<close>

fun seq :: "stmt list \<Rightarrow> stmt" where
  "seq [] f = (Next, f)"
| "seq (st # rest) f =
     (case st f of
        (Next, f1) \<Rightarrow> seq rest f1
      | r \<Rightarrow> r)"

text \<open>\<^verbatim>\<open>driver = create_driver()\<close>\<close>

definition create_driver :: "env \<Rightarrow> stmt" where
  "create_driver E f =
     (case call_stmt E CreateDriver f of
        (Next, f1) \<Rightarrow> (Next, f1\<lparr>driver_open := True\<rparr>)
      | r \<Rightarrow> r)"

text \<open>
  \<^verbatim>\<open>load_content_items\<close>: a \<^verbatim>\<open>JSONDecodeError\<close> is raised again as a \<^verbatim>\<open>ValueError\<close>,
  any other exception of \<^verbatim>\<open>json.loads\<close> leaves the function as it is.
\<close>

definition load_content_items ::
  "(string \<Rightarrow> stdlib_error + json) \<Rightarrow> string option \<Rightarrow> exn + json list" where
  "load_content_items loads content_file =
     (case content_file of
        None \<Rightarrow> Inl FileNotFoundError
      | Some t \<Rightarrow>
          (case loads t of
             Inl e \<Rightarrow> if e = JSONDecode then Inl ValueError else Inl (exn_of e)
           | Inr (JArr items) \<Rightarrow> Inr items
           | Inr _ \<Rightarrow> Inl ValueError))"

text \<open>
  \<^verbatim>\<open>content_items = load_content_items(content_file)\<close>, the file being the one
  \<^verbatim>\<open>fetch_github_content\<close> has just written.
\<close>

definition load_content :: "env \<Rightarrow> stmt" where
  "load_content E f =
     (case load_content_items (lib_loads (library E)) (Some (github_text E)) of
        Inl e \<Rightarrow> (Raise e, log (Raised LoadContentItems e) f)
      | Inr items \<Rightarrow> (Next, f\<lparr>content_items := items\<rparr>))"

text \<open>\<^verbatim>\<open>post_history_entries = load_post_history(POSTED_HISTORY_FILE)\<close>\<close>

definition load_history :: "env \<Rightarrow> stmt" where
  "load_history E f =
     (case load_post_history (library E) (posted_history_file f) of
        Inl e \<Rightarrow> (Raise (exn_of e), log (Raised LoadPostHistory (exn_of e)) f)
      | Inr history \<Rightarrow> (Next, f\<lparr>post_history_entries := history\<rparr>))"

text \<open>The truth value of what \<^verbatim>\<open>find_next_content_item\<close> returned.\<close>

fun truthy :: "json option \<Rightarrow> bool" where
  "truthy None = False"
| "truthy (Some (JObj d)) = (d \<noteq> [])"
| "truthy (Some JNull) = False"
| "truthy (Some (JBool b)) = b"
| "truthy (Some (JInt i)) = (i \<noteq> 0)"
| "truthy (Some (JFloat m e)) = (m \<noteq> 0)"
| "truthy (Some (JStr s)) = (s \<noteq> [])"
| "truthy (Some (JArr xs)) = (xs \<noteq> [])"

text \<open>
  \<^verbatim>\<open>candidate = find_next_content_item(...)\<close> and the \<^verbatim>\<open>if not candidate\<close> branch,
  which clears the temporary directory and returns.
\<close>

definition select_candidate :: "env \<Rightarrow> stmt" where
  "select_candidate E f =
     (case find_next_content_item (content_items f) (post_history_entries f) of
        Inl e \<Rightarrow> (Raise e, log (Raised FindNextContentItem e) f)
      | Inr found \<Rightarrow>
          if \<not> truthy found then
            (case call_stmt E ClearTempDirNoContent f of
               (Next, f1) \<Rightarrow> (Return, f1)
             | r \<Rightarrow> r)
          else (Next, f\<lparr>candidate := the found\<rparr>))"

text \<open>\<^verbatim>\<open>x.get(key, "").strip()\<close>\<close>

fun get_stripped :: "json \<Rightarrow> string \<Rightarrow> exn + string" where
  "get_stripped (JObj d) k =
     (case dict_get d k (JStr []) of
        JStr s \<Rightarrow> Inr (strip s)
      | _ \<Rightarrow> Inl AttributeError)"
| "get_stripped _ k = Inl AttributeError"

definition derive_lines :: "env \<Rightarrow> stmt" where
  "derive_lines E f =
     (case get_stripped (candidate f) ''description'' of
        Inl e \<Rightarrow> (Raise e, log (Raised BuildEntry e) f)
      | Inr html \<Rightarrow>
          (Next, f\<lparr>description_html := html,
                   description_lines := strip_html_paragraphs (lib_unescape E) html\<rparr>))"

text \<open>\<^verbatim>\<open>sep.join(parts)\<close>\<close>

fun py_join :: "string \<Rightarrow> string list \<Rightarrow> string" where
  "py_join sep [] = []"
| "py_join sep [x] = x"
| "py_join sep (x # rest) = x @ sep @ py_join sep rest"

text \<open>
  The text step: \<^verbatim>\<open>combined_text\<close> is the lines joined by two newlines, or the
  description itself when there are no lines; when it is not empty the editor is focused
  and the text typed, a timeout ending the run.
\<close>

definition enter_text :: "env \<Rightarrow> stmt" where
  "enter_text E f =
     (let combined_text =
            (if description_lines f \<noteq> []
             then py_join [CHR 0x0A, CHR 0x0A] (description_lines f)
             else description_html f)
      in if combined_text \<noteq> []
         then guarded (seq [call_stmt E FocusTextField, call_stmt E InputMultilineText]) f
         else (Next, f))"

text \<open>The image step: \<^verbatim>\<open>upload_media\<close> is called when the download returned a path.\<close>

definition attach_image :: "env \<Rightarrow> stmt" where
  "attach_image E f =
     (case call_stmt E DownloadImage f of
        (Next, f1) \<Rightarrow> if image_found E then call_stmt E UploadMedia f1 else (Next, f1)
      | r \<Rightarrow> r)"

text \<open>
  \<^verbatim>\<open>append_post_history(POSTED_HISTORY_FILE, {...})\<close>: the entry is built first (the
  title and the image are stripped, which raises on a value that is not a string), then
  the ledger is written. When the append raises, the file is as the append left it: as
  it was, or empty when it is the write that raised.
\<close>

definition record_history :: "env \<Rightarrow> stmt" where
  "record_history E f =
     (case get_stripped (candidate f) ''title'' of
        Inl e \<Rightarrow> (Raise e, log (Raised BuildEntry e) f)
      | Inr title \<Rightarrow>
          (case get_stripped (candidate f) ''image'' of
             Inl e \<Rightarrow> (Raise e, log (Raised BuildEntry e) f)
           | Inr image_url \<Rightarrow>
               (let entry = JObj [(''title'', JStr title),
                                  (''description'', JStr (description_html f)),
                                  (''image'', JStr image_url)]
                in case append_post_history (library E) (posted_history_file f) entry of
                     (None, new_file) \<Rightarrow>
                       (Next, log (Recorded entry) (f\<lparr>posted_history_file := new_file\<rparr>))
                   | (Some e, new_file) \<Rightarrow>
                       (Raise (exn_of e),
                        log (Raised AppendPostHistory (exn_of e))
                          (f\<lparr>posted_history_file := new_file\<rparr>)))))"

text \<open>The body of the \<^verbatim>\<open>try\<close> of \<^verbatim>\<open>main\<close>, statement by statement.\<close>

definition before_post :: "env \<Rightarrow> stmt list" where
  "before_post E =
     [create_driver E,
      call_stmt E EnsureTempDir,
      call_stmt E FetchGithubContent,
      load_content E,
      load_history E,
      select_candidate E,
      derive_lines E,
      call_stmt E DriverGet,
      call_stmt E ApplyCookies,
      call_stmt E Refresh,
      call_stmt E DownloadPageSource,
      call_stmt E DismissNotificationPopup,
      call_stmt E OpenProfileMenu,
      call_stmt E SelectPageFromMenu,
      guarded (call_stmt E WaitPageHeader),
      guarded (call_stmt E ClickCreatePost),
      guarded (call_stmt E WaitPopup),
      call_stmt E DownloadPopupSource,
      enter_text E,
      attach_image E,
      guarded (call_stmt E ClickNext)]"

definition after_record :: "env \<Rightarrow> stmt list" where
  "after_record E = [call_stmt E FetchPrimaryFeedText, call_stmt E ClearTempDirDone]"

definition try_body :: "env \<Rightarrow> stmt" where
  "try_body E =
     seq (before_post E @ [guarded (call_stmt E ClickPost), record_history E] @ after_record E)"

text \<open>\<^verbatim>\<open>needle in haystack\<close> for strings.\<close>

fun contains :: "string \<Rightarrow> string \<Rightarrow> bool" where
  "contains needle [] = (needle = [])"
| "contains needle (c # cs) = (take (length needle) (c # cs) = needle \<or> contains needle cs)"

text \<open>
  The handlers of \<^verbatim>\<open>main\<close>: the status \<^verbatim>\<open>sys.exit\<close> is called with, if it is called.
  The string of an \<^verbatim>\<open>ElementNotInteractableException\<close> is its \<^verbatim>\<open>str(e)\<close>.
\<close>

definition says_not_interactable :: "string \<Rightarrow> bool" where
  "says_not_interactable msg = contains ''element not interactable'' msg"

definition handlers :: "exn \<Rightarrow> int option" where
  "handlers e =
     (case e of
        ElementNotInteractableException msg \<Rightarrow>
          if says_not_interactable msg then Some 1 else None
      | _ \<Rightarrow> None)"

record run =
  exit_code :: int
  final :: frame

definition initial :: "bytes option \<Rightarrow> frame" where
  "initial file = \<lparr>
     driver_open = False, content_items = [], post_history_entries = [], candidate = JNull,
     description_html = [], description_lines = [], posted_history_file = file, events = [] \<rparr>"

text \<open>
  \<^verbatim>\<open>main\<close>, and the status the process exits with: 1 when an exception leaves
  \<^verbatim>\<open>main\<close> (from \<^verbatim>\<open>load_cookies\<close>, which is called before the \<^verbatim>\<open>try\<close>, or from
  \<^verbatim>\<open>driver.quit()\<close> in the \<^verbatim>\<open>finally\<close>), the argument of \<^verbatim>\<open>sys.exit\<close> when a handler
  calls it, and 0 otherwise.
\<close>

definition main :: "env \<Rightarrow> bytes option \<Rightarrow> run" where
  "main E file =
     (case call_stmt E LoadCookies (initial file) of
        (Next, f0) \<Rightarrow>
          (let (fl, f1) = try_body E f0;
               exiting = (case fl of Raise e \<Rightarrow> handlers e | _ \<Rightarrow> None);
               (quit, f2) = (if driver_open f1 then call_stmt E Quit f1 else (Next, f1))
           in \<lparr>exit_code =
                  (case quit of
                     Raise e \<Rightarrow> 1
                   | _ \<Rightarrow> (case exiting of Some status \<Rightarrow> status | None \<Rightarrow> 0)),
                final = f2\<rparr>)
      | (other, f0) \<Rightarrow> \<lparr>exit_code = 1, final = f0\<rparr>)"

text \<open>Environments to run the workflow on.\<close>

definition example_env :: env where
  "example_env = \<lparr>
     outcome = (\<lambda>c. None),
     github_text = ''feed'',
     image_found = True,
     library = example_lib\<lparr>lib_loads :=
       (\<lambda>t. if t = ''feed'' then Inr (JArr example_feed) else example_loads t)\<rparr>,
     lib_unescape = (\<lambda>s. s) \<rparr>"

definition no_trigger_env :: env where
  "no_trigger_env = example_env\<lparr>outcome := (\<lambda>c. if c = ClickCreatePost then Some TimeoutException else None)\<rparr>"

definition nothing_new_env :: env where
  "nothing_new_env = example_env\<lparr>library := example_lib\<lparr>lib_loads :=
     (\<lambda>t. if t = ''feed'' then Inr (JArr (take 2 example_feed)) else example_loads t)\<rparr>\<rparr>"

definition no_cookies_env :: env where
  "no_cookies_env = example_env\<lparr>outcome := (\<lambda>c. if c = LoadCookies then Some InvalidTag else None)\<rparr>"

definition not_interactable_env :: env where
  "not_interactable_env = example_env\<lparr>outcome :=
     (\<lambda>c. if c = ClickNext
          then Some (ElementNotInteractableException ''Message: element not interactable'')
          else None)\<rparr>"

definition no_post_env :: env where
  "no_post_env = example_env\<lparr>outcome := (\<lambda>c. if c = ClickPost then Some TimeoutException else None)\<rparr>"

text \<open>The library prints every value as the text that the encoder rejects.\<close>

definition unencodable_env :: env where
  "unencodable_env = example_env\<lparr>library := (library example_env)\<lparr>lib_dumps :=
     (\<lambda>v. Inr ''unencodable'')\<rparr>\<rparr>"

definition example_entry :: json where
  "example_entry = JObj [(''title'', JStr ''C''), (''description'', JStr ''<p>New</p>''),
                         (''image'', JStr [])]"

text \<open>
  The events of the ledger are the appends made and the appends that raised. A
  statement is quiet when it leaves the ledger file as it is and adds no such event.
\<close>

fun ledger_event :: "event \<Rightarrow> bool" where
  "ledger_event (Recorded entry) = True"
| "ledger_event (Raised c e) = (c = AppendPostHistory)"
| "ledger_event (Returned c) = False"

definition quiet :: "stmt \<Rightarrow> bool" where
  "quiet st =
     (\<forall>f fl f1. st f = (fl, f1) \<longrightarrow>
        posted_history_file f1 = posted_history_file f \<and>
        (\<exists>new. events f1 = events f @ new \<and> (\<forall>ev\<in>set new. \<not> ledger_event ev)))"

text \<open>
  The texts of the \<^verbatim>\<open>ElementNotInteractableException\<close>s among some events, and the
  text of the one a statement ends with, if it ends with one.
\<close>

fun eni_msgs :: "event list \<Rightarrow> string list" where
  "eni_msgs [] = []"
| "eni_msgs (Raised c (ElementNotInteractableException msg) # evs) = msg # eni_msgs evs"
| "eni_msgs (ev # evs) = eni_msgs evs"

fun raised_eni :: "flow \<Rightarrow> string list" where
  "raised_eni (Raise (ElementNotInteractableException msg)) = [msg]"
| "raised_eni fl = []"

text \<open>
  A step from one frame to another is traced when the events only grow, by events that
  are not failures of \<^verbatim>\<open>load_cookies\<close> or \<^verbatim>\<open>driver.quit()\<close>; a call that is
  recorded as raising did raise that exception, unless it is one of the computations
  of \<^verbatim>\<open>main\<close>, which raise no \<^verbatim>\<open>ElementNotInteractableException\<close>; and such an
  exception is among the new events exactly when the step ends by raising it.
\<close>

definition traced :: "env \<Rightarrow> frame \<Rightarrow> flow \<Rightarrow> frame \<Rightarrow> bool" where
  "traced E f fl f1 =
     (\<exists>new. events f1 = events f @ new \<and>
        (\<forall>e. Raised Quit e \<notin> set new) \<and>
        (\<forall>e. Raised LoadCookies e \<notin> set new) \<and>
        (\<forall>c e. Raised c e \<in> set new \<longrightarrow>
           outcome E c = Some e \<or> (\<forall>msg. e \<noteq> ElementNotInteractableException msg)) \<and>
        eni_msgs new = raised_eni fl)"

definition faithful :: "env \<Rightarrow> stmt \<Rightarrow> bool" where
  "faithful E st = (\<forall>f fl f1. st f = (fl, f1) \<longrightarrow> traced E f fl f1)"

section \<open>Properties of the content selector\<close>

lemma strip_Nil [simp]: "strip [] = []"
  by (simp add: strip_def lstrip_def rstrip_def)

lemma get_description_well_formed:
  "well_formed x \<Longrightarrow> get_description x = Inr (key_of x)"
  by (cases x) (auto simp: dict_get_def split: option.splits json.splits)

lemma posted_descriptions_well_formed:
  "\<forall>h\<in>set hist. well_formed h \<Longrightarrow>
   posted_descriptions hist acc = Inr (acc \<union> key_of ` set hist)"
  by (induction hist arbitrary: acc) (auto simp: get_description_well_formed)

lemma scan_items_well_formed:
  "\<forall>x\<in>set feed. well_formed x \<Longrightarrow>
   scan_items posted feed = Inr (find (\<lambda>x. key_of x \<noteq> [] \<and> key_of x \<notin> posted) feed)"
  by (induction feed) (auto simp: get_description_well_formed)

lemma posted_descriptions_Inr:
  "posted_descriptions hist acc = Inr S \<Longrightarrow>
   S = acc \<union> {d. \<exists>h\<in>set hist. get_description h = Inr d}"
  by (induction hist arbitrary: acc) (auto split: sum.splits)

lemma scan_items_Some:
  "scan_items posted feed = Inr (Some item) \<Longrightarrow>
   \<exists>pre post d. feed = pre @ item # post \<and> get_description item = Inr d \<and> d \<noteq> [] \<and> d \<notin> posted
     \<and> (\<forall>x\<in>set pre. \<exists>d'. get_description x = Inr d' \<and> (d' = [] \<or> d' \<in> posted))"
proof (induction feed)
  case Nil
  then show ?case by simp
next
  case (Cons x xs)
  show ?case
  proof (cases "get_description x")
    case (Inl e)
    with Cons.prems show ?thesis by simp
  next
    case (Inr d)
    show ?thesis
    proof (cases "d \<noteq> [] \<and> d \<notin> posted")
      case True
      with Cons.prems Inr have "item = x" by simp
      with True Inr show ?thesis
        by (intro exI [of _ "[]"] exI [of _ xs] exI [of _ d]) simp
    next
      case False
      with Cons.prems Inr have "scan_items posted xs = Inr (Some item)" by auto
      from Cons.IH [OF this] obtain pre post d0 where
        *: "xs = pre @ item # post" "get_description item = Inr d0" "d0 \<noteq> []" "d0 \<notin> posted"
        "\<forall>x\<in>set pre. \<exists>d'. get_description x = Inr d' \<and> (d' = [] \<or> d' \<in> posted)"
        by blast
      show ?thesis
        apply (rule exI [of _ "x # pre"])
        apply (rule exI [of _ post])
        apply (rule exI [of _ d0])
        using * False Inr by auto
    qed
  qed
qed

lemma scan_items_None:
  "scan_items posted feed = Inr None \<Longrightarrow>
   \<forall>x\<in>set feed. \<exists>d'. get_description x = Inr d' \<and> (d' = [] \<or> d' \<in> posted)"
  by (induction feed) (auto split: sum.splits if_splits)

text \<open>
  C1. Whenever the selector returns an item, that item is the first one of the feed
  whose stripped description is non-empty and is not the stripped description of any
  history entry, and every item before it is empty or already posted; when it returns
  \<^verbatim>\<open>None\<close>, every item of the feed is empty or already posted. On well-formed
  entries (dictionaries whose description is a string or absent) it never raises and
  is exactly the first such item of the feed, if any.
\<close>

theorem find_next_content_item_first_unposted:
  "(find_next_content_item feed hist = Inr (Some item) \<longrightarrow>
      (\<exists>pre post d. feed = pre @ item # post \<and> get_description item = Inr d \<and> d \<noteq> [] \<and>
         (\<forall>h\<in>set hist. get_description h \<noteq> Inr d) \<and>
         (\<forall>x\<in>set pre. \<exists>d'. get_description x = Inr d' \<and>
            (d' = [] \<or> (\<exists>h\<in>set hist. get_description h = Inr d'))))) \<and>
   (find_next_content_item feed hist = Inr None \<longrightarrow>
      (\<forall>x\<in>set feed. \<exists>d'. get_description x = Inr d' \<and>
         (d' = [] \<or> (\<exists>h\<in>set hist. get_description h = Inr d')))) \<and>
   ((\<forall>h\<in>set hist. well_formed h) \<and> (\<forall>x\<in>set feed. well_formed x) \<longrightarrow>
      find_next_content_item feed hist =
        Inr (find (\<lambda>x. key_of x \<noteq> [] \<and> key_of x \<notin> key_of ` set hist) feed))"
proof (intro conjI impI)
  assume r: "find_next_content_item feed hist = Inr (Some item)"
  then obtain posted where p: "posted_descriptions hist {} = Inr posted"
    and s: "scan_items posted feed = Inr (Some item)"
    by (auto simp: find_next_content_item_def split: sum.splits)
  from posted_descriptions_Inr [OF p]
  have posted: "posted = {d. \<exists>h\<in>set hist. get_description h = Inr d}" by simp
  from scan_items_Some [OF s] obtain pre post d where
    *: "feed = pre @ item # post" "get_description item = Inr d" "d \<noteq> []" "d \<notin> posted"
       "\<forall>x\<in>set pre. \<exists>d'. get_description x = Inr d' \<and> (d' = [] \<or> d' \<in> posted)"
    by blast
  show "\<exists>pre post d. feed = pre @ item # post \<and> get_description item = Inr d \<and> d \<noteq> [] \<and>
         (\<forall>h\<in>set hist. get_description h \<noteq> Inr d) \<and>
         (\<forall>x\<in>set pre. \<exists>d'. get_description x = Inr d' \<and>
            (d' = [] \<or> (\<exists>h\<in>set hist. get_description h = Inr d')))"
    using * unfolding posted
    by (intro exI [of _ pre] exI [of _ post] exI [of _ d]) simp
next
  assume r: "find_next_content_item feed hist = Inr None"
  then obtain posted where p: "posted_descriptions hist {} = Inr posted"
    and s: "scan_items posted feed = Inr None"
    by (auto simp: find_next_content_item_def split: sum.splits)
  from posted_descriptions_Inr [OF p]
  have posted: "posted = {d. \<exists>h\<in>set hist. get_description h = Inr d}" by simp
  from scan_items_None [OF s] show
    "\<forall>x\<in>set feed. \<exists>d'. get_description x = Inr d' \<and>
         (d' = [] \<or> (\<exists>h\<in>set hist. get_description h = Inr d'))"
    unfolding posted by simp
next
  assume wf: "(\<forall>h\<in>set hist. well_formed h) \<and> (\<forall>x\<in>set feed. well_formed x)"
  then show "find_next_content_item feed hist =
        Inr (find (\<lambda>x. key_of x \<noteq> [] \<and> key_of x \<notin> key_of ` set hist) feed)"
    by (simp add: find_next_content_item_def posted_descriptions_well_formed
        scan_items_well_formed)
qed

theorem find_next_content_item_first_unposted_witness:
  "find_next_content_item example_feed example_history = Inr (Some (example_feed ! 2)) \<and>
   list_all well_formed example_history \<and> list_all well_formed example_feed \<and>
   find (\<lambda>x. key_of x \<noteq> [] \<and> key_of x \<notin> key_of ` set example_history) example_feed = Some (example_feed ! 2) \<and>
   (\<exists>pre post d. example_feed = pre @ (example_feed ! 2) # post \<and> get_description (example_feed ! 2) = Inr d \<and> d \<noteq> [] \<and>
         (\<forall>h\<in>set example_history. get_description h \<noteq> Inr d) \<and>
         (\<forall>x\<in>set pre. \<exists>d'. get_description x = Inr d' \<and>
            (d' = [] \<or> (\<exists>h\<in>set example_history. get_description h = Inr d')))) \<and>
   find_next_content_item (take 2 example_feed) example_history = Inr None"
proof -
  have wf: "list_all well_formed example_history" "list_all well_formed example_feed"
    by (simp_all add: example_feed_def example_history_def)
  have r: "find_next_content_item example_feed example_history = Inr (Some (example_feed ! 2))"
    by (simp add: find_next_content_item_def example_feed_def example_history_def dict_get_def
        strip_def lstrip_def rstrip_def py_isspace_def)
  have n: "find_next_content_item (take 2 example_feed) example_history = Inr None"
    by (simp add: find_next_content_item_def example_feed_def example_history_def dict_get_def
        strip_def lstrip_def rstrip_def py_isspace_def)
  from wf find_next_content_item_first_unposted [of example_feed example_history "example_feed ! 2"] r n
  show ?thesis by (simp add: list_all_iff)
qed

section \<open>Properties of the history ledger\<close>

text \<open>
  C7. Loading the ledger returns the empty list when the file is absent, and when its
  bytes decode to a text on which \<^verbatim>\<open>json.loads\<close> raises \<^verbatim>\<open>JSONDecodeError\<close>. It does
  not do so for every file that is not parsable as JSON: the handler names
  \<^verbatim>\<open>JSONDecodeError\<close> only, so when the bytes of the file are not UTF-8 the
  \<^verbatim>\<open>UnicodeDecodeError\<close> of \<^verbatim>\<open>read_text\<close> leaves the function, and so does every other
  exception of \<^verbatim>\<open>json.loads\<close>.
\<close>

theorem load_post_history_raises:
  "load_post_history L None = Inr [] \<and>
   (lib_read_text L content = Inr text \<and> lib_loads L text = Inl JSONDecode \<longrightarrow>
      load_post_history L (Some content) = Inr []) \<and>
   (lib_read_text L content = Inl e \<and> e \<noteq> JSONDecode \<longrightarrow>
      load_post_history L (Some content) = Inl e) \<and>
   (lib_read_text L content = Inr text \<and> lib_loads L text = Inl e \<and> e \<noteq> JSONDecode \<longrightarrow>
      load_post_history L (Some content) = Inl e)"
  by (simp add: load_post_history_def)

text \<open>
  The ledger holds the one byte \<^verbatim>\<open>0xFF\<close>, which is not UTF-8: loading raises. A text
  that is not JSON loads as the empty list, and a text on which \<^verbatim>\<open>json.loads\<close> raises
  a \<^verbatim>\<open>ValueError\<close> raises it.
\<close>

theorem load_post_history_raises_witness:
  "lib_read_text example_lib [CHR 0xFF] = Inl UnicodeDecode \<and>
   load_post_history example_lib (Some [CHR 0xFF]) = Inl UnicodeDecode \<and>
   lib_read_text example_lib ''{not json'' = Inr ''{not json'' \<and>
   lib_loads example_lib ''{not json'' = Inl JSONDecode \<and>
   load_post_history example_lib (Some ''{not json'') = Inr [] \<and>
   lib_read_text example_lib ''digits'' = Inr ''digits'' \<and>
   lib_loads example_lib ''digits'' = Inl ValueErr \<and>
   load_post_history example_lib (Some ''digits'') = Inl ValueErr"
proof -
  have a: "lib_read_text example_lib [CHR 0xFF] = Inl UnicodeDecode"
    by (simp add: example_lib_def)
  have b: "lib_read_text example_lib ''{not json'' = Inr ''{not json''"
    "lib_loads example_lib ''{not json'' = Inl JSONDecode"
    by (simp_all add: example_lib_def example_loads_def)
  have c: "lib_read_text example_lib ''digits'' = Inr ''digits''"
    "lib_loads example_lib ''digits'' = Inl ValueErr"
    by (simp_all add: example_lib_def example_loads_def)
  from load_post_history_raises [of example_lib "[CHR 0xFF]" "''{not json''" UnicodeDecode]
    load_post_history_raises [of example_lib "''{not json''" "''{not json''" UnicodeDecode]
    load_post_history_raises [of example_lib "''digits''" "''digits''" ValueErr]
    a b c
  show ?thesis by simp
qed

text \<open>
  C8, as amended. A ledger of the legacy shape, an object whose \<^verbatim>\<open>descriptions\<close> is a
  list of strings, loads as one entry per string, in order, with empty title and image;
  the description of the entry is the string with leading and trailing whitespace
  stripped, not the string itself.
\<close>

theorem load_post_history_legacy_stripped:
  "lib_read_text L content = Inr text \<Longrightarrow> lib_loads L text = Inr (JObj d) \<Longrightarrow>
   map_of d ''descriptions'' = Some (JArr (map JStr ss)) \<Longrightarrow>
   load_post_history L (Some content) =
     Inr (map (\<lambda>s. JObj [(''title'', JStr []), (''description'', JStr (strip s)), (''image'', JStr [])]) ss)"
  by (simp add: load_post_history_def comp_def legacy_entry_def)

text \<open>
  The legacy string \<^verbatim>\<open>" a"\<close> does not load as an entry whose description is
  \<^verbatim>\<open>" a"\<close>.
\<close>

theorem load_post_history_legacy_counterexample:
  "lib_read_text example_lib ''padded'' = Inr ''padded'' \<and>
   lib_loads example_lib ''padded'' = Inr (JObj [(''descriptions'', JArr (map JStr ['' a'']))]) \<and>
   load_post_history example_lib (Some ''padded'')
     \<noteq> Inr (map (\<lambda>s. JObj [(''title'', JStr []), (''description'', JStr s), (''image'', JStr [])]) ['' a''])"
  by (simp add: load_post_history_def example_lib_def example_loads_def
      example_padded_legacy_def legacy_entry_def strip_def lstrip_def rstrip_def py_isspace_def)

theorem load_post_history_legacy_stripped_witness:
  "lib_read_text example_lib ''legacy'' = Inr ''legacy'' \<and>
   lib_loads example_lib ''legacy'' = Inr example_legacy \<and>
   load_post_history example_lib (Some ''legacy'') =
      Inr [JObj [(''title'', JStr []), (''description'', JStr ''a''), (''image'', JStr [])],
           JObj [(''title'', JStr []), (''description'', JStr ''b''), (''image'', JStr [])]]"
proof -
  have r: "lib_read_text example_lib ''legacy'' = Inr ''legacy''"
    by (simp add: example_lib_def)
  have l: "lib_loads example_lib ''legacy'' = Inr (JObj [(''descriptions'', JArr [JStr ''a'', JStr ''b''])])"
    by (simp add: example_lib_def example_loads_def example_legacy_def)
  have m: "map_of [(''descriptions'', JArr [JStr ''a'', JStr ''b''])] ''descriptions''
      = Some (JArr (map JStr [''a'', ''b'']))"
    by simp
  have s: "strip ''a'' = ''a''" "strip ''b'' = ''b''"
    by (simp_all add: strip_def lstrip_def rstrip_def py_isspace_def)
  from load_post_history_legacy_stripped [of example_lib "''legacy''" "''legacy''" _ "[''a'', ''b'']", OF r l m] r l s
  show ?thesis by (simp add: example_legacy_def)
qed





section \<open>Properties of typing into the editor\<close>

lemma input_lines_soft_breaks:
  "n = int index + int (length lines) \<Longrightarrow>
   input_lines n index lines element = element @ soft_break_separated lines"
proof (induction lines arbitrary: index element rule: soft_break_separated.induct)
  case 1
  then show ?case by simp
next
  case (2 line)
  then show ?case by (simp add: send_keys_def)
next
  case (3 line l rest)
  from "3.prems" have "n = int (Suc index) + int (length (l # rest))" by simp
  from "3.IH" [OF this]
  have ih: "input_lines n (Suc index) (l # rest) el' = el' @ soft_break_separated (l # rest)" for el'
    by blast
  from "3.prems" have lt: "int index < n - 1" by simp
  have "input_lines n index (line # l # rest) element =
      input_lines n (Suc index) (l # rest) (element @ [[Chars line], [Special SHIFT, Special ENTER]])"
    using lt by (simp add: send_keys_def Let_def del: input_lines.simps(2)
        add: input_lines.simps(2) [of n index line])
  then show ?case by (simp only: ih soft_break_separated.simps append_Cons append_Nil append_assoc)
qed

text \<open>
  C9, as amended. For a non-empty sequence of lines the element receives Ctrl+A, then
  Delete, then the lines in order with a Shift+Enter between consecutive lines and none
  after the last; for the empty sequence it receives nothing, not even the clearing
  keys.
\<close>

theorem input_multiline_text_sequence:
  "input_multiline_text element lines =
     (if lines = [] then element
      else element @ [[Special CONTROL, Chars ''a''], [Special DELETE]] @ soft_break_separated lines)"
  by (simp add: input_multiline_text_def Let_def input_lines_soft_breaks send_keys_def)

text \<open>With no lines, the select-all and delete keys are not sent.\<close>

theorem input_multiline_text_empty_counterexample:
  "input_multiline_text [] [] = [] \<and>
   \<not> (\<exists>rest. input_multiline_text [] [] = [[Special CONTROL, Chars ''a''], [Special DELETE]] @ rest)"
  by (simp add: input_multiline_text_def)

theorem input_multiline_text_sequence_witness:
  "input_multiline_text [] [''one'', ''two'', ''three''] =
     [[Special CONTROL, Chars ''a''], [Special DELETE],
      [Chars ''one''], [Special SHIFT, Special ENTER],
      [Chars ''two''], [Special SHIFT, Special ENTER],
      [Chars ''three'']]"
  using input_multiline_text_sequence [of "[]" "[''one'', ''two'', ''three'']"] by simp

section \<open>Properties of the conversion to lines\<close>

lemma match_open_opens: "opens t \<Longrightarrow> match_open (t @ rest) = Some rest"
  unfolding opens_def by (elim disjE) (simp_all add: is_p_def)

lemma match_open_Some: "match_open s = Some rest \<Longrightarrow> \<exists>t. opens t \<and> s = t @ rest"
proof (induction s rule: match_open.induct)
  case (1 a b c r)
  then have "a = CHR ''<''" "is_p b" "c = CHR ''>''" "r = rest"
    by (simp_all split: if_splits)
  then have "opens [a, b, c]" "a # b # c # r = [a, b, c] @ rest"
    by (auto simp: opens_def is_p_def)
  then show ?case by blast
qed simp_all

lemma match_open_iff: "match_open s = Some rest \<longleftrightarrow> (\<exists>t. opens t \<and> s = t @ rest)"
  using match_open_opens match_open_Some by blast

lemma match_close_closes: "closes t \<Longrightarrow> match_close (t @ rest) = Some rest"
  unfolding closes_def by (elim disjE) (simp_all add: is_p_def)

lemma match_close_Some: "match_close s = Some rest \<Longrightarrow> \<exists>t. closes t \<and> s = t @ rest"
proof (induction s rule: match_close.induct)
  case (1 a b c d r)
  then have "a = CHR ''<''" "b = CHR ''/''" "is_p c" "d = CHR ''>''" "r = rest"
    by (simp_all split: if_splits)
  then have "closes [a, b, c, d]" "a # b # c # d # r = [a, b, c, d] @ rest"
    by (auto simp: closes_def is_p_def)
  then show ?case by blast
qed simp_all

lemma match_close_iff: "match_close s = Some rest \<longleftrightarrow> (\<exists>t. closes t \<and> s = t @ rest)"
  using match_close_closes match_close_Some by blast

lemma lazy_body_Some:
  "lazy_body s = Some (body, rest) \<Longrightarrow> \<exists>t. closes t \<and> s = body @ t @ rest"
proof (induction s arbitrary: body)
  case Nil
  then show ?case by simp
next
  case (Cons c cs)
  show ?case
  proof (cases "match_close (c # cs)")
    case (Some r)
    with Cons.prems have "body = []" "r = rest" by simp_all
    with Some show ?thesis by (simp add: match_close_iff)
  next
    case None
    with Cons.prems obtain b where b: "lazy_body cs = Some (b, rest)" "body = c # b"
      by (auto split: option.splits)
    from Cons.IH [OF b(1)] b(2) show ?thesis by auto
  qed
qed

lemma has_close_lazy_body:
  "closes t \<Longrightarrow> \<exists>body rest. lazy_body (a @ t @ b) = Some (body, rest)"
proof (induction a)
  case Nil
  then have "match_close (t @ b) = Some b" by (auto simp: match_close_iff)
  moreover from Nil obtain c cs where "t @ b = c # cs" by (cases "t @ b") (auto simp: closes_def)
  ultimately show ?case by simp
next
  case (Cons c a)
  then show ?case by (auto split: option.splits)
qed

lemma lazy_body_None_iff: "lazy_body s = None \<longleftrightarrow> \<not> has_close s"
proof
  assume n: "lazy_body s = None"
  show "\<not> has_close s"
  proof
    assume "has_close s"
    then obtain a t b where "closes t" "s = a @ t @ b" by (auto simp: has_close_def)
    with has_close_lazy_body [of t a b] n show False by simp
  qed
next
  assume "\<not> has_close s"
  then show "lazy_body s = None"
    by (cases "lazy_body s") (auto simp: has_close_def dest!: lazy_body_Some)
qed

lemma p_block_Cons: "p_block cs \<Longrightarrow> p_block (c # cs)"
proof -
  assume "p_block cs"
  then obtain a t1 b t2 d where "opens t1" "closes t2" "cs = a @ t1 @ b @ t2 @ d"
    by (auto simp: p_block_def)
  then have "opens t1 \<and> closes t2 \<and> c # cs = (c # a) @ t1 @ b @ t2 @ d" by simp
  then show ?thesis unfolding p_block_def by blast
qed

lemma findall_p_nonempty_block: "findall_p s \<noteq> [] \<Longrightarrow> p_block s"
proof (induction s rule: findall_p.induct)
  case 1
  then show ?case by simp
next
  case (2 c cs)
  show ?case
  proof (cases "match_open (c # cs)")
    case None
    with 2 show ?thesis by (auto intro: p_block_Cons)
  next
    case (Some u)
    then obtain t1 where t1: "opens t1" "c # cs = t1 @ u" by (auto simp: match_open_iff)
    show ?thesis
    proof (cases "lazy_body u")
      case None
      with 2 Some show ?thesis by (auto intro: p_block_Cons)
    next
      case (Some br)
      then obtain body rest where "lazy_body u = Some (body, rest)" by (cases br) auto
      from lazy_body_Some [OF this] obtain t2 where "closes t2" "u = body @ t2 @ rest" by blast
      with t1 have "opens t1 \<and> closes t2 \<and> c # cs = [] @ t1 @ body @ t2 @ rest" by simp
      then show ?thesis unfolding p_block_def by blast
    qed
  qed
qed

lemma block_findall_p_nonempty: "p_block s \<Longrightarrow> findall_p s \<noteq> []"
proof (induction s rule: findall_p.induct)
  case 1
  then show ?case by (auto simp: p_block_def opens_def)
next
  case (2 c cs)
  from "2.prems" obtain a t1 b t2 d where
    d: "opens t1" "closes t2" "c # cs = a @ t1 @ b @ t2 @ d"
    by (auto simp: p_block_def)
  have tail: "p_block cs" if "a \<noteq> []"
  proof -
    from that d(3) obtain a' where "a = c # a'" by (cases a) auto
    with d have "opens t1 \<and> closes t2 \<and> cs = a' @ t1 @ b @ t2 @ d" by simp
    then show ?thesis unfolding p_block_def by blast
  qed
  show ?case
  proof (cases "match_open (c # cs)")
    case None
    have "a \<noteq> []"
    proof
      assume "a = []"
      with d have "match_open (c # cs) = Some (b @ t2 @ d)" by (auto simp: match_open_iff)
      with None show False by simp
    qed
    with tail have "p_block cs" by simp
    with "2.IH"(1) [OF None] None show ?thesis by simp
  next
    case (Some u)
    show ?thesis
    proof (cases "lazy_body u")
      case None
      have "a \<noteq> []"
      proof
        assume "a = []"
        with d have "match_open (c # cs) = Some (b @ t2 @ d)" by (auto simp: match_open_iff)
        with Some have "u = b @ t2 @ d" by simp
        with d(2) have "has_close u" by (auto simp: has_close_def)
        with None show False by (simp add: lazy_body_None_iff)
      qed
      with tail have "p_block cs" by simp
      with "2.IH"(2) [OF Some None] Some None show ?thesis by simp
    next
      case (Some br)
      with \<open>match_open (c # cs) = Some u\<close> show ?thesis by (cases br) simp
    qed
  qed
qed

lemma clean_paragraphs_filter:
  "clean_paragraphs unescape ps acc =
     acc @ filter (\<lambda>l. l \<noteq> []) (map (\<lambda>p. strip (unescape (remove_tags p))) ps)"
  by (induction ps arbitrary: acc) (simp_all add: Let_def)



lemma match_tag_iff:
  "match_tag s = Some rest \<longleftrightarrow>
     (\<exists>body. body \<noteq> [] \<and> CHR ''>'' \<notin> set body \<and> s = CHR ''<'' # body @ CHR ''>'' # rest)"
proof
  assume m: "match_tag s = Some rest"
  then obtain c cs where s: "s = c # cs" by (cases s) auto
  let ?body = "takeWhile (\<lambda>x. x \<noteq> CHR ''>'') cs"
  let ?after = "dropWhile (\<lambda>x. x \<noteq> CHR ''>'') cs"
  from m s have c: "c = CHR ''<''" "?body \<noteq> []" "?after \<noteq> []" "rest = tl ?after"
    by (auto split: if_splits)
  from c(3) have "hd ?after = CHR ''>''"
    using hd_dropWhile [of "\<lambda>x. x \<noteq> CHR ''>''" cs] by simp
  with c(3,4) have "?after = CHR ''>'' # rest" by (cases ?after) auto
  then have "cs = ?body @ CHR ''>'' # rest"
    using takeWhile_dropWhile_id [of "\<lambda>x. x \<noteq> CHR ''>''" cs] by simp
  moreover have "CHR ''>'' \<notin> set ?body"
    by (auto dest: set_takeWhileD)
  ultimately show "\<exists>body. body \<noteq> [] \<and> CHR ''>'' \<notin> set body \<and> s = CHR ''<'' # body @ CHR ''>'' # rest"
    using c(1,2) s by blast
next
  assume "\<exists>body. body \<noteq> [] \<and> CHR ''>'' \<notin> set body \<and> s = CHR ''<'' # body @ CHR ''>'' # rest"
  then obtain body where b: "body \<noteq> []" "CHR ''>'' \<notin> set body" "s = CHR ''<'' # body @ CHR ''>'' # rest"
    by blast
  from b(2) have nb: "x \<noteq> CHR ''>''" if "x \<in> set body" for x
    using that by auto
  have "takeWhile (\<lambda>x. x \<noteq> CHR ''>'') (body @ CHR ''>'' # rest) = body"
    "dropWhile (\<lambda>x. x \<noteq> CHR ''>'') (body @ CHR ''>'' # rest) = CHR ''>'' # rest"
    by (simp_all add: nb)
  with b show "match_tag s = Some rest" by simp
qed

lemma match_tag_set: "match_tag s = Some rest \<Longrightarrow> set rest \<subseteq> set s"
  by (auto simp: match_tag_iff)

lemma remove_tags_set: "set (remove_tags s) \<subseteq> set s"
proof (induction s rule: remove_tags.induct)
  case 1
  then show ?case by simp
next
  case (2 c cs)
  show ?case
  proof (cases "match_tag (c # cs)")
    case None
    with "2.IH"(1) [OF None] show ?thesis by auto
  next
    case (Some rest)
    from "2.IH"(2) [OF Some] match_tag_set [OF Some] Some show ?thesis
      by (auto simp del: match_tag.simps)
  qed
qed

lemma match_tag_None_remove_tags:
  assumes "match_tag (c # cs) = None"
  shows "match_tag (c # remove_tags cs) = None"
proof (cases "c = CHR ''<''")
  case False
  then show ?thesis by simp
next
  case True
  with assms consider "takeWhile (\<lambda>x. x \<noteq> CHR ''>'') cs = []"
    | "dropWhile (\<lambda>x. x \<noteq> CHR ''>'') cs = []"
    by (auto split: if_splits)
  then show ?thesis
  proof cases
    case 1
    then have "cs = [] \<or> (\<exists>cs'. cs = CHR ''>'' # cs')"
      by (cases cs) (auto split: if_splits)
    then show ?thesis by auto
  next
    case 2
    then have "\<forall>x\<in>set cs. x \<noteq> CHR ''>''" by simp
    with remove_tags_set [of cs] have "\<forall>x\<in>set (remove_tags cs). x \<noteq> CHR ''>''" by blast
    then have "dropWhile (\<lambda>x. x \<noteq> CHR ''>'') (remove_tags cs) = []"
      by simp
    then show ?thesis by simp
  qed
qed

lemma remove_tags_no_match:
  "remove_tags s = a @ t \<Longrightarrow> match_tag t = None"
proof (induction s arbitrary: a rule: remove_tags.induct)
  case 1
  then show ?case by simp
next
  case (2 c cs)
  show ?case
  proof (cases "match_tag (c # cs)")
    case (Some rest)
    with "2.prems" have "remove_tags rest = a @ t" by simp
    from "2.IH"(2) [OF Some this] show ?thesis .
  next
    case None
    with "2.prems" have r: "c # remove_tags cs = a @ t" by simp
    show ?thesis
    proof (cases a)
      case Nil
      with r have "t = c # remove_tags cs" by simp
      with match_tag_None_remove_tags [OF None] show ?thesis by simp
    next
      case (Cons x a')
      with r have "remove_tags cs = a' @ t" by simp
      from "2.IH"(1) [OF None this] show ?thesis .
    qed
  qed
qed

lemma remove_tags_no_tag: "\<not> has_tag (remove_tags s)"
proof
  assume "has_tag (remove_tags s)"
  then obtain a body c where b: "body \<noteq> []" "CHR ''>'' \<notin> set body"
    "remove_tags s = a @ CHR ''<'' # body @ CHR ''>'' # c"
    by (auto simp: has_tag_def)
  from b(1,2) have "match_tag (CHR ''<'' # body @ CHR ''>'' # c) = Some c"
    unfolding match_tag_iff by blast
  with remove_tags_no_match [OF b(3)] show False by simp
qed

lemma has_close_Cons: "has_close cs \<Longrightarrow> has_close (c # cs)"
proof -
  assume "has_close cs"
  then obtain a t b where "closes t" "cs = a @ t @ b" by (auto simp: has_close_def)
  then have "closes t \<and> c # cs = (c # a) @ t @ b" by simp
  then show ?thesis unfolding has_close_def by blast
qed

lemma has_open_Cons: "has_open cs \<Longrightarrow> has_open (c # cs)"
proof -
  assume "has_open cs"
  then obtain a t b where "opens t" "cs = a @ t @ b" by (auto simp: has_open_def)
  then have "opens t \<and> c # cs = (c # a) @ t @ b" by simp
  then show ?thesis unfolding has_open_def by blast
qed

lemma match_close_before_close:
  assumes "closes t" and "\<not> has_close (c # body)"
  shows "match_close (c # body @ t @ rest) = None"
proof (rule ccontr)
  assume "match_close (c # body @ t @ rest) \<noteq> None"
  then obtain r where "match_close (c # body @ t @ rest) = Some r" by blast
  from match_close_Some [OF this] obtain t' where t': "closes t'" "c # body @ t @ rest = t' @ r"
    by blast
  from t'(1) obtain p where p: "t' = [CHR ''<'', CHR ''/'', p, CHR ''>'']"
    by (auto simp: closes_def)
  from assms(1) obtain q where q: "t = [CHR ''<'', CHR ''/'', q, CHR ''>'']" "is_p q"
    by (auto simp: closes_def is_p_def)
  show False
  proof (cases body)
    case Nil
    with t'(2) p q show ?thesis by simp
  next
    case (Cons x1 b1)
    show ?thesis
    proof (cases b1)
      case Nil
      with Cons t'(2) p q show ?thesis by (auto simp: is_p_def)
    next
      case (Cons x2 b2)
      show ?thesis
      proof (cases b2)
        case Nil
        with Cons \<open>body = x1 # b1\<close> t'(2) p q show ?thesis by simp
      next
        case (Cons x3 b3)
        with \<open>b1 = x2 # b2\<close> \<open>body = x1 # b1\<close> t'(2) p
        have "c # body = [] @ t' @ b3" by simp
        with t'(1) have "has_close (c # body)" unfolding has_close_def by blast
        with assms(2) show ?thesis by simp
      qed
    qed
  qed
qed

lemma lazy_body_shortest:
  "closes t \<Longrightarrow> \<not> has_close body \<Longrightarrow> lazy_body (body @ t @ rest) = Some (body, rest)"
proof (induction body)
  case Nil
  then obtain c cs where "t @ rest = c # cs" by (cases "t @ rest") (auto simp: closes_def)
  with match_close_closes [OF Nil(1), of rest] show ?case by simp
next
  case (Cons c body)
  from Cons.prems(2) have "\<not> has_close body" by (auto dest: has_close_Cons)
  with Cons.IH Cons.prems(1) have "lazy_body (body @ t @ rest) = Some (body, rest)" by simp
  with match_close_before_close [OF Cons.prems, of rest] show ?case by simp
qed

lemma match_open_before_open:
  assumes "opens t" and "\<not> has_open (c # a)"
  shows "match_open (c # a @ t @ rest) = None"
proof (rule ccontr)
  assume "match_open (c # a @ t @ rest) \<noteq> None"
  then obtain r where "match_open (c # a @ t @ rest) = Some r" by blast
  from match_open_Some [OF this] obtain t' where t': "opens t'" "c # a @ t @ rest = t' @ r"
    by blast
  from t'(1) obtain p where p: "t' = [CHR ''<'', p, CHR ''>'']" "is_p p"
    by (auto simp: opens_def is_p_def)
  from assms(1) obtain q where q: "t = [CHR ''<'', q, CHR ''>'']"
    by (auto simp: opens_def)
  show False
  proof (cases a)
    case Nil
    with t'(2) p q show ?thesis by (auto simp: is_p_def)
  next
    case (Cons x1 a1)
    show ?thesis
    proof (cases a1)
      case Nil
      with Cons t'(2) p q show ?thesis by simp
    next
      case (Cons x2 a2)
      with \<open>a = x1 # a1\<close> t'(2) p have "c # a = [] @ t' @ a2" by simp
      with t'(1) have "has_open (c # a)" unfolding has_open_def by blast
      with assms(2) show ?thesis by simp
    qed
  qed
qed

lemma findall_p_first:
  "opens t1 \<Longrightarrow> closes t2 \<Longrightarrow> \<not> has_open a \<Longrightarrow> \<not> has_close body \<Longrightarrow>
   findall_p (a @ t1 @ body @ t2 @ rest) = body # findall_p rest"
proof (induction a)
  case Nil
  then obtain c cs where c: "t1 @ body @ t2 @ rest = c # cs"
    by (cases "t1 @ body @ t2 @ rest") (auto simp: opens_def)
  from Nil have "match_open (t1 @ body @ t2 @ rest) = Some (body @ t2 @ rest)"
    by (simp add: match_open_opens)
  moreover from Nil have "lazy_body (body @ t2 @ rest) = Some (body, rest)"
    by (simp add: lazy_body_shortest)
  ultimately show ?case using c by simp
next
  case (Cons c a)
  from Cons.prems(3) have "\<not> has_open a" by (auto dest: has_open_Cons)
  with Cons have "findall_p (a @ t1 @ body @ t2 @ rest) = body # findall_p rest" by simp
  with match_open_before_open [OF Cons.prems(1,3), of "body @ t2 @ rest"] show ?case by simp
qed

text \<open>
  C10. A paragraph block is an opening tag \<^verbatim>\<open><p>\<close> followed, anywhere later, by a
  closing tag \<^verbatim>\<open></p>\<close>, the letter in either case. If the string contains one, the
  result is the list of paragraph bodies, each with its tags removed, its entities
  unescaped and its surrounding whitespace stripped, the empty ones left out; if it
  contains none and is not empty, the result is the one-element list of the whole
  string treated the same way; for the empty string it is the empty list. The bodies
  are found from left to right: the first is what stands between the first opening tag
  and the first closing tag after it, the others are found in what follows that closing
  tag. Removing the tags leaves no tag behind.
\<close>

theorem strip_html_paragraphs_cases:
  "(p_block s \<longrightarrow> findall_p s \<noteq> [] \<and>
      strip_html_paragraphs unescape s =
        filter (\<lambda>l. l \<noteq> []) (map (\<lambda>p. strip (unescape (remove_tags p))) (findall_p s))) \<and>
   (s \<noteq> [] \<and> \<not> p_block s \<longrightarrow>
      strip_html_paragraphs unescape s = [strip (unescape (remove_tags s))]) \<and>
   strip_html_paragraphs unescape [] = [] \<and>
   (opens t1 \<and> closes t2 \<and> \<not> has_open a \<and> \<not> has_close body \<longrightarrow>
      findall_p (a @ t1 @ body @ t2 @ rest) = body # findall_p rest) \<and>
   \<not> has_tag (remove_tags s)"
proof (intro conjI impI)
  assume b: "p_block s"
  then show "findall_p s \<noteq> []" by (rule block_findall_p_nonempty)
  then show "strip_html_paragraphs unescape s =
      filter (\<lambda>l. l \<noteq> []) (map (\<lambda>p. strip (unescape (remove_tags p))) (findall_p s))"
    by (simp add: strip_html_paragraphs_def clean_paragraphs_filter)
next
  assume "s \<noteq> [] \<and> \<not> p_block s"
  moreover from this have "findall_p s = []" using findall_p_nonempty_block by blast
  ultimately show "strip_html_paragraphs unescape s = [strip (unescape (remove_tags s))]"
    by (simp add: strip_html_paragraphs_def)
next
  show "strip_html_paragraphs unescape [] = []"
    by (simp add: strip_html_paragraphs_def)
next
  assume "opens t1 \<and> closes t2 \<and> \<not> has_open a \<and> \<not> has_close body"
  then show "findall_p (a @ t1 @ body @ t2 @ rest) = body # findall_p rest"
    by (simp add: findall_p_first)
next
  show "\<not> has_tag (remove_tags s)" by (rule remove_tags_no_tag)
qed

theorem strip_html_paragraphs_cases_witness:
  "p_block example_html \<and>
   findall_p example_html = [''Hello'', '' a<b>c</b> '', ''  ''] \<and>
   strip_html_paragraphs (\<lambda>x. x) example_html = [''Hello'', ''ac''] \<and>
   example_plain \<noteq> [] \<and> \<not> p_block example_plain \<and>
   strip_html_paragraphs (\<lambda>x. x) example_plain = [''plain text''] \<and>
   opens ''<p>'' \<and> closes ''</P>'' \<and> \<not> has_open ''x'' \<and> \<not> has_close ''Hi'' \<and>
   findall_p (''x'' @ ''<p>'' @ ''Hi'' @ ''</P>'' @ ''<P>!</p>'') = [''Hi'', ''!''] \<and>
   \<not> has_tag (remove_tags example_html)"
proof -
  have f: "findall_p example_html = [''Hello'', '' a<b>c</b> '', ''  '']"
    by (simp add: example_html_def is_p_def)
  then have b: "p_block example_html" by (intro findall_p_nonempty_block) simp
  have g: "findall_p example_plain = []"
    by (simp add: example_plain_def is_p_def)
  then have n: "\<not> p_block example_plain" using block_findall_p_nonempty by blast
  have e: "example_plain \<noteq> []" by (simp add: example_plain_def)
  have r: "remove_tags '' a<b>c</b> '' = '' ac ''" "remove_tags ''Hello'' = ''Hello''"
    "remove_tags ''  '' = ''  ''" "remove_tags example_plain = ''plain text ''"
    by (simp_all add: example_plain_def)
  have s: "strip '' ac '' = ''ac''" "strip ''Hello'' = ''Hello''" "strip ''  '' = []"
    "strip ''plain text '' = ''plain text''"
    by (simp_all add: strip_def lstrip_def rstrip_def py_isspace_def)
  have o: "opens ''<p>''" "closes ''</P>''" by (simp_all add: opens_def closes_def)
  have h: "\<not> has_open ''x''" "\<not> has_close ''Hi''"
    by (auto simp: has_open_def has_close_def opens_def closes_def append_eq_Cons_conv)
  have t: "findall_p ''<P>!</p>'' = [''!'']" by (simp add: is_p_def)
  from strip_html_paragraphs_cases [of example_html "\<lambda>x. x" "''<p>''" "''</P>''" "''x''" "''Hi''" "''<P>!</p>''"]
    strip_html_paragraphs_cases [of example_plain "\<lambda>x. x"]
    f b g n e r s o h t
  show ?thesis by simp
qed

section \<open>Properties of the secret store\<close>

lemma payload_field_Inr:
  "payload_field lib payload k = Inr b \<Longrightarrow> \<exists>v. map_of payload k = Some v \<and> b64decode lib v = Inr b"
  by (auto simp: payload_field_def split: option.splits sum.splits exn.splits)

lemma decrypt_payload_Inr:
  "decrypt_payload lib payload password = Inr plaintext \<Longrightarrow>
   \<exists>salt nonce ciphertext.
     payload_field lib payload ''s'' = Inr salt \<and>
     payload_field lib payload ''n'' = Inr nonce \<and>
     payload_field lib payload ''ct'' = Inr ciphertext \<and>
     aesgcm_decrypt lib (derive_key lib password salt) nonce ciphertext = Inr plaintext"
  by (auto simp: decrypt_payload_def split: sum.splits)

lemma load_cookies_Inr:
  "load_cookies lib loads cookie_file getenv = Inr cookies \<Longrightarrow>
   \<exists>text password payload plaintext decoded.
     cookie_file = Some text \<and> getenv = Some password \<and> password \<noteq> [] \<and>
     loads text = Some (JObj payload) \<and>
     decrypt_payload lib payload password = Inr plaintext \<and>
     utf8_decode lib plaintext = Inr decoded \<and> loads decoded = Some (JArr cookies)"
  by (auto simp: load_cookies_def split: option.splits sum.splits json.splits if_splits)

text \<open>
  C2. When the authenticated decryption rejects the ciphertext under the key derived
  from the given password (wrong password, truncated or corrupted ciphertext), the
  exception it raises leaves \<^verbatim>\<open>_decrypt_payload\<close> and \<^verbatim>\<open>load_cookies\<close> as it is:
  neither returns a value. A plaintext that \<^verbatim>\<open>_decrypt_payload\<close> returns is the one
  the authenticated decryption returned, and cookies that \<^verbatim>\<open>load_cookies\<close> returns are
  parsed from such a plaintext.
\<close>

theorem decrypt_fails_closed:
  "(payload_field lib payload ''s'' = Inr salt \<and>
    payload_field lib payload ''n'' = Inr nonce \<and>
    payload_field lib payload ''ct'' = Inr ciphertext \<and>
    aesgcm_decrypt lib (derive_key lib password salt) nonce ciphertext = Inl e \<longrightarrow>
      decrypt_payload lib payload password = Inl e \<and>
      (password \<noteq> [] \<and> loads text = Some (JObj payload) \<longrightarrow>
         load_cookies lib loads (Some text) (Some password) = Inl e)) \<and>
   (decrypt_payload lib payload password = Inr plaintext \<longrightarrow>
      (\<exists>salt nonce ciphertext.
         payload_field lib payload ''s'' = Inr salt \<and>
         payload_field lib payload ''n'' = Inr nonce \<and>
         payload_field lib payload ''ct'' = Inr ciphertext \<and>
         aesgcm_decrypt lib (derive_key lib password salt) nonce ciphertext = Inr plaintext)) \<and>
   (load_cookies lib loads cookie_file getenv = Inr cookies \<longrightarrow>
      (\<exists>text' password' payload' salt nonce ciphertext plaintext decoded.
         cookie_file = Some text' \<and> getenv = Some password' \<and>
         loads text' = Some (JObj payload') \<and>
         payload_field lib payload' ''s'' = Inr salt \<and>
         payload_field lib payload' ''n'' = Inr nonce \<and>
         payload_field lib payload' ''ct'' = Inr ciphertext \<and>
         aesgcm_decrypt lib (derive_key lib password' salt) nonce ciphertext = Inr plaintext \<and>
         utf8_decode lib plaintext = Inr decoded \<and> loads decoded = Some (JArr cookies)))"
proof (intro conjI impI)
  assume a: "payload_field lib payload ''s'' = Inr salt \<and>
    payload_field lib payload ''n'' = Inr nonce \<and>
    payload_field lib payload ''ct'' = Inr ciphertext \<and>
    aesgcm_decrypt lib (derive_key lib password salt) nonce ciphertext = Inl e"
  then show d: "decrypt_payload lib payload password = Inl e"
    by (simp add: decrypt_payload_def)
  assume "password \<noteq> [] \<and> loads text = Some (JObj payload)"
  with d show "load_cookies lib loads (Some text) (Some password) = Inl e"
    by (simp add: load_cookies_def)
next
  assume "decrypt_payload lib payload password = Inr plaintext"
  then show "\<exists>salt nonce ciphertext.
         payload_field lib payload ''s'' = Inr salt \<and>
         payload_field lib payload ''n'' = Inr nonce \<and>
         payload_field lib payload ''ct'' = Inr ciphertext \<and>
         aesgcm_decrypt lib (derive_key lib password salt) nonce ciphertext = Inr plaintext"
    by (rule decrypt_payload_Inr)
next
  assume "load_cookies lib loads cookie_file getenv = Inr cookies"
  from load_cookies_Inr [OF this] obtain text' password' payload' plaintext decoded where
    l: "cookie_file = Some text'" "getenv = Some password'" "loads text' = Some (JObj payload')"
      "decrypt_payload lib payload' password' = Inr plaintext"
      "utf8_decode lib plaintext = Inr decoded" "loads decoded = Some (JArr cookies)"
    by blast
  from decrypt_payload_Inr [OF l(4)] l(1,2,3,5,6)
  show "\<exists>text' password' payload' salt nonce ciphertext plaintext decoded.
         cookie_file = Some text' \<and> getenv = Some password' \<and>
         loads text' = Some (JObj payload') \<and>
         payload_field lib payload' ''s'' = Inr salt \<and>
         payload_field lib payload' ''n'' = Inr nonce \<and>
         payload_field lib payload' ''ct'' = Inr ciphertext \<and>
         aesgcm_decrypt lib (derive_key lib password' salt) nonce ciphertext = Inr plaintext \<and>
         utf8_decode lib plaintext = Inr decoded \<and> loads decoded = Some (JArr cookies)"
    by blast
qed

theorem decrypt_fails_closed_witness:
  "payload_field example_crypto example_blob ''s'' = Inr ''salt'' \<and>
   payload_field example_crypto example_blob ''n'' = Inr ''nonce'' \<and>
   payload_field example_crypto example_blob ''ct'' = Inr ''cookies'' \<and>
   aesgcm_decrypt example_crypto (derive_key example_crypto ''wrong'' ''salt'') ''nonce'' ''cookies''
     = Inl InvalidTag \<and>
   example_cookie_loads ''blob'' = Some (JObj example_blob) \<and>
   decrypt_payload example_crypto example_blob ''wrong'' = Inl InvalidTag \<and>
   load_cookies example_crypto example_cookie_loads (Some ''blob'') (Some ''wrong'') = Inl InvalidTag \<and>
   decrypt_payload example_crypto example_blob ''pw'' = Inr ''cookies'' \<and>
   load_cookies example_crypto example_cookie_loads (Some ''blob'') (Some ''pw'')
     = Inr [JObj [(''name'', JStr ''c_user'')]] \<and>
   aesgcm_decrypt example_crypto (derive_key example_crypto ''pw'' ''salt'') ''nonce'' ''cookies''
     = Inr ''cookies''"
proof -
  have f: "payload_field example_crypto example_blob ''s'' = Inr ''salt''"
    "payload_field example_crypto example_blob ''n'' = Inr ''nonce''"
    "payload_field example_crypto example_blob ''ct'' = Inr ''cookies''"
    by (simp_all add: payload_field_def example_crypto_def example_blob_def)
  have w: "aesgcm_decrypt example_crypto (derive_key example_crypto ''wrong'' ''salt'') ''nonce''
      ''cookies'' = Inl InvalidTag"
    by (simp add: derive_key_def example_crypto_def)
  have l: "example_cookie_loads ''blob'' = Some (JObj example_blob)"
    by (simp add: example_cookie_loads_def)
  have g: "decrypt_payload example_crypto example_blob ''pw'' = Inr ''cookies''"
    by (simp add: decrypt_payload_def payload_field_def derive_key_def example_crypto_def
        example_blob_def)
  have c: "load_cookies example_crypto example_cookie_loads (Some ''blob'') (Some ''pw'')
     = Inr [JObj [(''name'', JStr ''c_user'')]]"
    by (simp add: load_cookies_def decrypt_payload_def payload_field_def derive_key_def
        example_crypto_def example_blob_def example_cookie_loads_def)
  from decrypt_fails_closed [of example_crypto example_blob "''salt''" "''nonce''" "''cookies''"
      "''wrong''" InvalidTag example_cookie_loads "''blob''" "''cookies''"
      "Some ''blob''" "Some ''pw''" "[JObj [(''name'', JStr ''c_user'')]]"]
    decrypt_fails_closed [of example_crypto example_blob "''salt''" "''nonce''" "''cookies''"
      "''pw''" InvalidTag example_cookie_loads "''blob''" "''cookies''"]
    f w l g c
  show ?thesis by auto
qed

section \<open>Properties of the resolution\<close>

lemma try_locator_never:
  "never_matches D l \<Longrightarrow> try_locator D l w = (Continue, snd (wait_presence D l w))"
  unfolding never_matches_def try_locator_def
  by (cases "wait_presence D l w") (auto simp: locator_handler_def dest: spec [of _ w])

lemma try_locators_skip:
  "\<forall>l\<in>set pre. never_matches D l \<Longrightarrow>
   try_locators D (pre @ rest) w = try_locators D rest (after_timeouts D pre w)"
proof (induction pre arbitrary: w)
  case Nil
  then show ?case by simp
next
  case (Cons l pre)
  then have "try_locator D l w = (Continue, snd (wait_presence D l w))"
    by (simp add: try_locator_never)
  with Cons show ?case by simp
qed

lemma try_locator_verified:
  assumes "wait_presence D l w = (Inr element, w1)"
    and "execute_script D ScrollIntoView element w1 = (Inr x, w2)"
    and "click D element w2 = (Inr (), w3)"
    and "execute_script D ScriptFocus element w3 = (Inr y, w4)"
    and "execute_script D IsActiveElement element w4 = (Inr is_active, w5)"
  shows "try_locator D l w = (if is_active then Focused element else Continue, w5)"
  using assms by (simp add: try_locator_def click_or_script_def)

lemma pass_start_Suc:
  "pass_start D ls poll (Suc k) w =
     sleep D poll (snd (try_locators D ls (pass_start D ls poll k w)))"
proof (induction k arbitrary: w)
  case 0
  show ?case by simp
next
  case (Suc k)
  have "pass_start D ls poll (Suc (Suc k)) w
      = pass_start D ls poll (Suc k) (sleep D poll (snd (try_locators D ls w)))"
    by simp
  also have "\<dots> = sleep D poll (snd (try_locators D ls
      (pass_start D ls poll k (sleep D poll (snd (try_locators D ls w))))))"
    by (rule Suc.IH)
  finally show ?case by simp
qed

lemma passes_continue_iff:
  "passes_continue D ls e poll k w \<longleftrightarrow>
     (\<forall>j<k. time_now D (pass_start D ls poll j w) < e \<and>
            fst (try_locators D ls (pass_start D ls poll j w)) = Continue)"
proof (induction k arbitrary: w)
  case 0
  show ?case by simp
next
  case (Suc k)
  let ?w = "sleep D poll (snd (try_locators D ls w))"
  let ?P = "\<lambda>j. time_now D (pass_start D ls poll j w) < e \<and>
            fst (try_locators D ls (pass_start D ls poll j w)) = Continue"
  have "passes_continue D ls e poll (Suc k) w \<longleftrightarrow>
      ?P 0 \<and> passes_continue D ls e poll k ?w"
    by simp
  also have "\<dots> \<longleftrightarrow> ?P 0 \<and> (\<forall>j<k. ?P (Suc j))"
    by (simp add: Suc.IH)
  also have "\<dots> \<longleftrightarrow> (\<forall>j<Suc k. ?P j)"
    by (metis less_Suc_eq_0_disj Suc_less_eq zero_less_Suc)
  finally show ?case .
qed

lemma focus_loop_unroll:
  "passes_continue D ls e poll k w \<Longrightarrow>
   focus_loop D ls e poll w = focus_loop D ls e poll (pass_start D ls poll k w)"
proof (induction k arbitrary: w)
  case 0
  show ?case by simp
next
  case (Suc k)
  let ?w = "sleep D poll (snd (try_locators D ls w))"
  from Suc.prems have t: "time_now D w < e" and c: "fst (try_locators D ls w) = Continue"
    and p: "passes_continue D ls e poll k ?w"
    by simp_all
  obtain w1 where w1: "try_locators D ls w = (Continue, w1)"
    using c by (cases "try_locators D ls w") simp
  with t have "focus_loop D ls e poll w = focus_loop D ls e poll ?w"
    by (subst focus_loop.simps) simp
  also have "\<dots> = focus_loop D ls e poll (pass_start D ls poll k ?w)"
    using p by (rule Suc.IH)
  finally show ?case by simp
qed

lemma focus_loop_found:
  assumes "passes_continue D ls e poll k w"
    and "time_now D (pass_start D ls poll k w) < e"
    and "try_locators D ls (pass_start D ls poll k w) = (Focused element, w')"
  shows "focus_loop D ls e poll w = Some (Inr element, w')"
proof -
  have "focus_loop D ls e poll (pass_start D ls poll k w) = Some (Inr element, w')"
    using assms(2,3) by (subst focus_loop.simps) simp
  with focus_loop_unroll [OF assms(1)] show ?thesis by simp
qed

lemma focus_loop_timeout:
  assumes "passes_continue D ls e poll k w"
    and "e \<le> time_now D (pass_start D ls poll k w)"
  shows "focus_loop D ls e poll w = Some (Inl TimeoutException, pass_start D ls poll k w)"
proof -
  have "focus_loop D ls e poll (pass_start D ls poll k w)
      = Some (Inl TimeoutException, pass_start D ls poll k w)"
    using assms(2) by (subst focus_loop.simps) simp
  with focus_loop_unroll [OF assms(1)] show ?thesis by simp
qed

lemma passes_advance:
  assumes "passes_find_nothing D ls e poll pass_time w"
    and "\<forall>j<k. time_now D (pass_start D ls poll j w) < e"
  shows "time_now D w + int k * poll \<le> time_now D (pass_start D ls poll k w)"
  using assms(2)
proof (induction k)
  case 0
  show ?case by simp
next
  case (Suc k)
  then have "time_now D w + int k * poll \<le> time_now D (pass_start D ls poll k w)"
    by simp
  moreover from Suc.prems have "time_now D (pass_start D ls poll k w) < e" by simp
  with assms(1) have "time_now D (pass_start D ls poll k w) + poll
      \<le> time_now D (pass_start D ls poll (Suc k) w)"
    unfolding passes_find_nothing_def by blast
  ultimately show ?case by (simp add: algebra_simps)
qed

lemma last_pass:
  assumes "passes_find_nothing D ls e poll pass_time w" and "0 < poll"
  shows "\<exists>k. passes_continue D ls e poll k w \<and> e \<le> time_now D (pass_start D ls poll k w) \<and>
     (time_now D w < e \<longrightarrow> time_now D (pass_start D ls poll k w) < e + pass_time)"
proof -
  let ?t = "\<lambda>k. time_now D (pass_start D ls poll k w)"
  have "\<exists>k. e \<le> ?t k"
  proof (rule ccontr)
    assume "\<not> (\<exists>k. e \<le> ?t k)"
    then have a: "\<forall>j. ?t j < e" by (simp add: not_le)
    define d where "d = e - time_now D w"
    from a [rule_format, of 0] have lt: "0 < d" by (simp add: d_def)
    from a have "time_now D w + int (nat d) * poll \<le> ?t (nat d)"
      by (intro passes_advance [OF assms(1)]) simp
    with lt have adv: "time_now D w + d * poll \<le> ?t (nat d)" by simp
    from a have up: "?t (nat d) < e" by blast
    from mult_left_mono [of 1 poll d] lt assms(2) have m: "d \<le> d * poll" by simp
    from adv up m show False unfolding d_def by linarith
  qed
  then obtain k where k: "e \<le> ?t k" "\<forall>j<k. \<not> e \<le> ?t j"
    by (auto simp: exists_least_iff [of "\<lambda>k. e \<le> ?t k"])
  then have b: "\<forall>j<k. ?t j < e" by (simp add: not_le)
  with assms(1) have "\<forall>j<k. ?t j < e \<and> fst (try_locators D ls (pass_start D ls poll j w)) = Continue"
    unfolding passes_find_nothing_def by blast
  then have c: "passes_continue D ls e poll k w"
    by (simp add: passes_continue_iff)
  have "?t k < e + pass_time" if "time_now D w < e"
  proof (cases k)
    case 0
    with k(1) that show ?thesis by simp
  next
    case (Suc j)
    with b have "?t j < e" by simp
    with assms(1) have "?t (Suc j) \<le> ?t j + pass_time"
      unfolding passes_find_nothing_def by blast
    with \<open>?t j < e\<close> Suc show ?thesis by simp
  qed
  with c k(1) show ?thesis by blast
qed

text \<open>
  C4, as amended. The locators are tried in order, pass after pass. Within a pass the
  locators that never match are waited for in vain, one after the other, and then the
  next one is tried: when it is found and verifies as focused it is the element of the
  pass, and when it is found and does not verify the pass goes on with the locators
  after it. The deadline is looked at before each pass and not during it. So the
  resolution returns the element of the first pass that finds one, provided that pass
  started before the deadline, whenever the element itself appeared; it raises
  \<^verbatim>\<open>TimeoutException\<close> when a pass would start at or after the deadline, the passes
  before it having found nothing; and when every pass started before the deadline finds
  nothing, the poll interval being positive, it does raise, at least the timeout after
  the call and less than the timeout plus the time of one pass.
\<close>

theorem focus_resolution:
  "((\<forall>l\<in>set pre. never_matches D l) \<longrightarrow>
      try_locators D (pre @ b # post) w = try_locators D (b # post) (after_timeouts D pre w)) \<and>
   (wait_presence D b v = (Inr element, w1) \<and>
    execute_script D ScrollIntoView element w1 = (Inr x, w2) \<and>
    click D element w2 = (Inr (), w3) \<and>
    execute_script D ScriptFocus element w3 = (Inr y, w4) \<and>
    execute_script D IsActiveElement element w4 = (Inr is_active, w5) \<longrightarrow>
      try_locators D (b # post) v =
        (if is_active then (Focused element, w5) else try_locators D post w5)) \<and>
   (passes_continue D ls (time_now D w + timeout) poll k w \<and>
    time_now D (pass_start D ls poll k w) < time_now D w + timeout \<and>
    try_locators D ls (pass_start D ls poll k w) = (Focused element, w') \<longrightarrow>
      focus_with D ls timeout poll w = Some (Inr element, w')) \<and>
   (passes_continue D ls (time_now D w + timeout) poll k w \<and>
    time_now D w + timeout \<le> time_now D (pass_start D ls poll k w) \<longrightarrow>
      focus_with D ls timeout poll w = Some (Inl TimeoutException, pass_start D ls poll k w)) \<and>
   (passes_find_nothing D ls (time_now D w + timeout) poll pass_time w \<and> 0 < poll \<longrightarrow>
      (\<exists>n. focus_with D ls timeout poll w = Some (Inl TimeoutException, pass_start D ls poll n w) \<and>
         time_now D w + timeout \<le> time_now D (pass_start D ls poll n w) \<and>
         (0 < timeout \<longrightarrow>
            time_now D (pass_start D ls poll n w) < time_now D w + timeout + pass_time))) \<and>
   focus_text_field D timeout poll w = focus_with D LEXICAL_EDITOR_LOCATORS timeout poll w"
proof (intro conjI impI)
  assume "\<forall>l\<in>set pre. never_matches D l"
  then show "try_locators D (pre @ b # post) w
      = try_locators D (b # post) (after_timeouts D pre w)"
    by (rule try_locators_skip)
next
  assume "wait_presence D b v = (Inr element, w1) \<and>
    execute_script D ScrollIntoView element w1 = (Inr x, w2) \<and>
    click D element w2 = (Inr (), w3) \<and>
    execute_script D ScriptFocus element w3 = (Inr y, w4) \<and>
    execute_script D IsActiveElement element w4 = (Inr is_active, w5)"
  then have "try_locator D b v = (if is_active then Focused element else Continue, w5)"
    using try_locator_verified [of D b v element w1 x w2 w3 y w4 is_active w5] by simp
  then show "try_locators D (b # post) v =
      (if is_active then (Focused element, w5) else try_locators D post w5)"
    by simp
next
  assume "passes_continue D ls (time_now D w + timeout) poll k w \<and>
    time_now D (pass_start D ls poll k w) < time_now D w + timeout \<and>
    try_locators D ls (pass_start D ls poll k w) = (Focused element, w')"
  then show "focus_with D ls timeout poll w = Some (Inr element, w')"
    unfolding focus_with_def by (intro focus_loop_found [of D ls _ poll k]) simp_all
next
  assume "passes_continue D ls (time_now D w + timeout) poll k w \<and>
    time_now D w + timeout \<le> time_now D (pass_start D ls poll k w)"
  then show "focus_with D ls timeout poll w
      = Some (Inl TimeoutException, pass_start D ls poll k w)"
    unfolding focus_with_def by (intro focus_loop_timeout) simp_all
next
  assume a: "passes_find_nothing D ls (time_now D w + timeout) poll pass_time w \<and> 0 < poll"
  then obtain n where
    n: "passes_continue D ls (time_now D w + timeout) poll n w"
      "time_now D w + timeout \<le> time_now D (pass_start D ls poll n w)"
      "time_now D w < time_now D w + timeout \<longrightarrow>
         time_now D (pass_start D ls poll n w) < time_now D w + timeout + pass_time"
    using last_pass [of D ls "time_now D w + timeout" poll pass_time w] by blast
  from focus_loop_timeout [OF n(1,2)] n(2,3)
  show "\<exists>n. focus_with D ls timeout poll w = Some (Inl TimeoutException, pass_start D ls poll n w) \<and>
         time_now D w + timeout \<le> time_now D (pass_start D ls poll n w) \<and>
         (0 < timeout \<longrightarrow>
            time_now D (pass_start D ls poll n w) < time_now D w + timeout + pass_time)"
    unfolding focus_with_def by auto
next
  show "focus_text_field D timeout poll w = focus_with D LEXICAL_EDITOR_LOCATORS timeout poll w"
    by (simp add: focus_text_field_def)
qed

lemma timed_driver_clock:
  "time_now (timed_driver appears) w = w" "sleep (timed_driver appears) d w = w + d"
  by (simp_all add: timed_driver_def)

lemma try_locator_timed:
  "try_locator (timed_driver appears) l w =
     (case appears l of
        None \<Rightarrow> (Continue, w + 2000)
      | Some t \<Rightarrow> if t \<le> w + 2000 then (Focused l, max w t) else (Continue, w + 2000))"
  by (simp add: try_locator_def click_or_script_def locator_handler_def timed_driver_def
      split: option.splits)

lemma try_locators_b_appears_at:
  "try_locators (b_appears_at t) [locator_a, locator_b] w =
     (if t \<le> w + 4000 then (Focused locator_b, max (w + 2000) t) else (Continue, w + 4000))"
  by (simp add: b_appears_at_def try_locator_timed locator_a_def locator_b_def)

lemma try_locators_empty_page:
  "try_locators empty_page LEXICAL_EDITOR_LOCATORS w = (Continue, w + 6000)"
  by (simp add: empty_page_def try_locator_timed LEXICAL_EDITOR_LOCATORS_def)

lemma b_appears_at_clock:
  "time_now (b_appears_at t) w = w" "sleep (b_appears_at t) d w = w + d"
  by (simp_all add: b_appears_at_def timed_driver_clock)

text \<open>
  With a timeout of nine seconds and a poll interval of half a second, \<^verbatim>\<open>#a\<close> never
  matching: \<^verbatim>\<open>#b\<close> appears after 8.7 seconds, within the timeout, and the resolution
  raises, since the second pass has given up on \<^verbatim>\<open>#b\<close> at 8.5 seconds and the third
  would start at the deadline. With a timeout of ten seconds: \<^verbatim>\<open>#b\<close> appears after 11.5
  seconds, a wait for it that ends at the deadline finds nothing, and the resolution
  returns it, from the third pass, which started at nine seconds. And on a page where
  nothing appears the program's three locators take thirteen seconds to fail.
\<close>

theorem focus_resolution_counterexample:
  "never_matches (b_appears_at 8700) locator_a \<and>
   wait_presence (b_appears_at 8700) locator_b 8700 = (Inr locator_b, 8700) \<and>
   execute_script (b_appears_at 8700) IsActiveElement locator_b 8700 = (Inr True, 8700) \<and>
   focus_with (b_appears_at 8700) [locator_a, locator_b] 9000 500 0
     = Some (Inl TimeoutException, 9000) \<and>
   never_matches (b_appears_at 11500) locator_a \<and>
   wait_presence (b_appears_at 11500) locator_b 8000 = (Inl TimeoutException, 10000) \<and>
   focus_with (b_appears_at 11500) [locator_a, locator_b] 10000 500 0
     = Some (Inr locator_b, 11500) \<and>
   focus_text_field empty_page 10000 500 0 = Some (Inl TimeoutException, 13000) \<and>
   \<not> time_now empty_page 13000 - time_now empty_page 0 \<le> 10000"
proof -
  let ?ab = "[locator_a, locator_b]"
  have a3: "focus_loop (b_appears_at 8700) ?ab 9000 500 9000 = Some (Inl TimeoutException, 9000)"
    by (subst focus_loop.simps) (simp add: b_appears_at_clock)
  have a2: "focus_loop (b_appears_at 8700) ?ab 9000 500 4500 = Some (Inl TimeoutException, 9000)"
    by (subst focus_loop.simps) (simp add: b_appears_at_clock try_locators_b_appears_at a3 del: try_locators.simps)
  have a1: "focus_loop (b_appears_at 8700) ?ab 9000 500 0 = Some (Inl TimeoutException, 9000)"
    by (subst focus_loop.simps) (simp add: b_appears_at_clock try_locators_b_appears_at a2 del: try_locators.simps)
  have b3: "focus_loop (b_appears_at 11500) ?ab 10000 500 9000 = Some (Inr locator_b, 11500)"
    by (subst focus_loop.simps) (simp add: b_appears_at_clock try_locators_b_appears_at del: try_locators.simps)
  have b2: "focus_loop (b_appears_at 11500) ?ab 10000 500 4500 = Some (Inr locator_b, 11500)"
    by (subst focus_loop.simps) (simp add: b_appears_at_clock try_locators_b_appears_at b3 del: try_locators.simps)
  have b1: "focus_loop (b_appears_at 11500) ?ab 10000 500 0 = Some (Inr locator_b, 11500)"
    by (subst focus_loop.simps) (simp add: b_appears_at_clock try_locators_b_appears_at b2 del: try_locators.simps)
  have t: "time_now empty_page w = w" "sleep empty_page d w = w + d" for w d
    by (simp_all add: empty_page_def timed_driver_clock)
  have c3: "focus_loop empty_page LEXICAL_EDITOR_LOCATORS 10000 500 13000
      = Some (Inl TimeoutException, 13000)"
    by (subst focus_loop.simps) (simp add: t)
  have c2: "focus_loop empty_page LEXICAL_EDITOR_LOCATORS 10000 500 6500
      = Some (Inl TimeoutException, 13000)"
    by (subst focus_loop.simps) (simp add: t try_locators_empty_page c3 del: try_locators.simps)
  have c1: "focus_loop empty_page LEXICAL_EDITOR_LOCATORS 10000 500 0
      = Some (Inl TimeoutException, 13000)"
    by (subst focus_loop.simps) (simp add: t try_locators_empty_page c2 del: try_locators.simps)
  have w: "wait_presence (b_appears_at 8700) locator_b 8700 = (Inr locator_b, 8700)"
    "execute_script (b_appears_at 8700) IsActiveElement locator_b 8700 = (Inr True, 8700)"
    "wait_presence (b_appears_at 11500) locator_b 8000 = (Inl TimeoutException, 10000)"
    by (simp_all add: b_appears_at_def timed_driver_def)
  have n: "never_matches (b_appears_at u) locator_a" for u
    by (simp add: never_matches_def b_appears_at_def timed_driver_def locator_a_def
        locator_b_def)
  show ?thesis
    by (simp add: focus_text_field_def focus_with_def b_appears_at_clock t a1 b1 c1 w n)
qed

theorem focus_resolution_witness:
  "never_matches (b_appears_at 5000) locator_a \<and>
   try_locators (b_appears_at 5000) [locator_a, locator_b] 4500
     = try_locators (b_appears_at 5000) [locator_b] 6500 \<and>
   wait_presence (b_appears_at 5000) locator_b 6500 = (Inr locator_b, 6500) \<and>
   try_locators (b_appears_at 5000) [locator_b] 6500 = (Focused locator_b, 6500) \<and>
   passes_continue (b_appears_at 5000) [locator_a, locator_b] 10000 500 1 0 \<and>
   pass_start (b_appears_at 5000) [locator_a, locator_b] 500 1 0 = 4500 \<and>
   focus_with (b_appears_at 5000) [locator_a, locator_b] 10000 500 0
     = Some (Inr locator_b, 6500) \<and>
   passes_continue (b_appears_at 8700) [locator_a, locator_b] 9000 500 2 0 \<and>
   focus_with (b_appears_at 8700) [locator_a, locator_b] 9000 500 0
     = Some (Inl TimeoutException, 9000) \<and>
   passes_find_nothing (b_appears_at 20000) [locator_a, locator_b] 10000 500 4500 0 \<and>
   (\<exists>n. focus_with (b_appears_at 20000) [locator_a, locator_b] 10000 500 0
       = Some (Inl TimeoutException, pass_start (b_appears_at 20000) [locator_a, locator_b] 500 n 0) \<and>
      10000 \<le> pass_start (b_appears_at 20000) [locator_a, locator_b] 500 n 0 \<and>
      pass_start (b_appears_at 20000) [locator_a, locator_b] 500 n 0 < 14500)"
proof -
  let ?ab = "[locator_a, locator_b]"
  have n: "never_matches (b_appears_at 5000) locator_a"
    by (simp add: never_matches_def b_appears_at_def timed_driver_def locator_a_def locator_b_def)
  have s: "after_timeouts (b_appears_at 5000) [locator_a] 4500 = 6500"
    by (simp add: b_appears_at_def timed_driver_def locator_a_def locator_b_def)
  have v: "wait_presence (b_appears_at 5000) locator_b 6500 = (Inr locator_b, 6500)"
    "execute_script (b_appears_at 5000) ScrollIntoView locator_b 6500 = (Inr False, 6500)"
    "click (b_appears_at 5000) locator_b 6500 = (Inr (), 6500)"
    "execute_script (b_appears_at 5000) ScriptFocus locator_b 6500 = (Inr False, 6500)"
    "execute_script (b_appears_at 5000) IsActiveElement locator_b 6500 = (Inr True, 6500)"
    by (simp_all add: b_appears_at_def timed_driver_def)
  have p1: "passes_continue (b_appears_at 5000) ?ab 10000 500 1 0"
    "pass_start (b_appears_at 5000) ?ab 500 1 0 = 4500"
    by (simp_all add: b_appears_at_clock try_locators_b_appears_at del: try_locators.simps)
  have f1: "try_locators (b_appears_at 5000) ?ab 4500 = (Focused locator_b, 6500)"
    by (simp add: try_locators_b_appears_at del: try_locators.simps)
  have p2: "passes_continue (b_appears_at 8700) ?ab 9000 500 2 0"
    "pass_start (b_appears_at 8700) ?ab 500 2 0 = 9000"
    by (simp_all add: numeral_2_eq_2 b_appears_at_clock try_locators_b_appears_at
        del: try_locators.simps)
  have p3: "passes_find_nothing (b_appears_at 20000) ?ab 10000 500 4500 0"
    unfolding passes_find_nothing_def
    by (simp add: pass_start_Suc b_appears_at_clock try_locators_b_appears_at
        del: pass_start.simps try_locators.simps)
  from focus_resolution [where D = "b_appears_at 5000" and pre = "[locator_a]"
      and b = locator_b and post = "[]" and w = 4500] n s
  have 1: "try_locators (b_appears_at 5000) ?ab 4500
      = try_locators (b_appears_at 5000) [locator_b] 6500"
    by simp
  from focus_resolution [where D = "b_appears_at 5000" and b = locator_b and post = "[]"
      and v = 6500 and element = locator_b and ?w1.0 = 6500 and x = False and ?w2.0 = 6500
      and ?w3.0 = 6500 and y = False and ?w4.0 = 6500 and is_active = True
      and ?w5.0 = 6500] v
  have 2: "try_locators (b_appears_at 5000) [locator_b] 6500 = (Focused locator_b, 6500)"
    by simp
  from focus_resolution [where D = "b_appears_at 5000" and ls = ?ab and w = 0
      and timeout = 10000 and poll = 500 and k = 1 and element = locator_b and w' = 6500]
    p1 f1
  have 3: "focus_with (b_appears_at 5000) ?ab 10000 500 0 = Some (Inr locator_b, 6500)"
    by (simp add: b_appears_at_clock)
  from focus_resolution [where D = "b_appears_at 8700" and ls = ?ab and w = 0
      and timeout = 9000 and poll = 500 and k = 2] p2
  have 4: "focus_with (b_appears_at 8700) ?ab 9000 500 0 = Some (Inl TimeoutException, 9000)"
    by (simp add: b_appears_at_clock)
  from focus_resolution [where D = "b_appears_at 20000" and ls = ?ab and w = 0
      and timeout = 10000 and poll = 500 and pass_time = 4500] p3
  have 5: "\<exists>n. focus_with (b_appears_at 20000) ?ab 10000 500 0
       = Some (Inl TimeoutException, pass_start (b_appears_at 20000) ?ab 500 n 0) \<and>
      10000 \<le> pass_start (b_appears_at 20000) ?ab 500 n 0 \<and>
      pass_start (b_appears_at 20000) ?ab 500 n 0 < 14500"
    by (simp add: b_appears_at_clock)
  from n 1 v(1) 2 p1 3 p2(1) 4 p3 5 show ?thesis by simp
qed

section \<open>Properties of the publish workflow\<close>

lemma seq_append:
  "seq (xs @ ys) f = (case seq xs f of (Next, f1) \<Rightarrow> seq ys f1 | r \<Rightarrow> r)"
proof (induction xs arbitrary: f)
  case Nil
  then show ?case by simp
next
  case (Cons st xs)
  show ?case
  proof (cases "st f")
    case (Pair fl f1)
    with Cons show ?thesis by (cases fl) simp_all
  qed
qed

lemma quietI:
  assumes "\<And>f fl f1. st f = (fl, f1) \<Longrightarrow>
     posted_history_file f1 = posted_history_file f \<and>
     (\<exists>new. events f1 = events f @ new \<and> (\<forall>ev\<in>set new. \<not> ledger_event ev))"
  shows "quiet st"
  using assms unfolding quiet_def by blast

lemma quietD:
  assumes "quiet st" and "st f = (fl, f1)"
  shows "posted_history_file f1 = posted_history_file f"
    and "\<exists>new. events f1 = events f @ new \<and> (\<forall>ev\<in>set new. \<not> ledger_event ev)"
  using assms unfolding quiet_def by blast+

lemma quiet_call: "c \<noteq> AppendPostHistory \<Longrightarrow> quiet (call_stmt E c)"
proof (rule quietI)
  fix f fl f1
  assume c: "c \<noteq> AppendPostHistory"
  assume "call_stmt E c f = (fl, f1)"
  then have "posted_history_file f1 = posted_history_file f \<and>
    (events f1 = events f @ [Returned c] \<or> (\<exists>e. events f1 = events f @ [Raised c e]))"
    by (auto simp: call_stmt_def log_def split: option.splits)
  with c show "posted_history_file f1 = posted_history_file f \<and>
     (\<exists>new. events f1 = events f @ new \<and> (\<forall>ev\<in>set new. \<not> ledger_event ev))"
    by auto
qed

lemma quiet_guarded: "quiet st \<Longrightarrow> quiet (guarded st)"
proof (rule quietI)
  fix f fl f1
  assume q: "quiet st" and g: "guarded st f = (fl, f1)"
  obtain fl' where "st f = (fl', f1)"
    using g by (cases "st f") (auto simp: guarded_def split: flow.splits if_splits)
  from quietD [OF q this]
  show "posted_history_file f1 = posted_history_file f \<and>
     (\<exists>new. events f1 = events f @ new \<and> (\<forall>ev\<in>set new. \<not> ledger_event ev))"
    by simp
qed

lemma quiet_seq: "\<forall>st\<in>set sts. quiet st \<Longrightarrow> quiet (seq sts)"
proof (induction sts)
  case Nil
  show ?case by (rule quietI) simp
next
  case (Cons st sts)
  then have q: "quiet st" and qs: "quiet (seq sts)" by simp_all
  show ?case
  proof (rule quietI)
    fix f fl f2
    assume r: "seq (st # sts) f = (fl, f2)"
    obtain fl1 f1 where s: "st f = (fl1, f1)" by (cases "st f")
    from quietD [OF q s] obtain new1 where
      1: "posted_history_file f1 = posted_history_file f" "events f1 = events f @ new1"
        "\<forall>ev\<in>set new1. \<not> ledger_event ev"
      by blast
    show "posted_history_file f2 = posted_history_file f \<and>
       (\<exists>new. events f2 = events f @ new \<and> (\<forall>ev\<in>set new. \<not> ledger_event ev))"
    proof (cases "fl1 = Next")
      case True
      with r s have "seq sts f1 = (fl, f2)" by simp
      from quietD [OF qs this] obtain new2 where
        2: "posted_history_file f2 = posted_history_file f1" "events f2 = events f1 @ new2"
          "\<forall>ev\<in>set new2. \<not> ledger_event ev"
        by blast
      from 1 2 have "events f2 = events f @ (new1 @ new2) \<and>
          (\<forall>ev\<in>set (new1 @ new2). \<not> ledger_event ev)"
        by auto
      with 1 2 show ?thesis by metis
    next
      case False
      with r s have "f2 = f1" by (cases fl1) simp_all
      with 1 show ?thesis by blast
    qed
  qed
qed

lemma quiet_update:
  assumes "\<And>f. posted_history_file (g f) = posted_history_file f"
    and "\<And>f. events (g f) = events f"
    and "quiet st"
  shows "quiet (\<lambda>f. case st f of (Next, f1) \<Rightarrow> (h f1, g f1) | r \<Rightarrow> r)"
proof (rule quietI)
  fix f fl f2
  assume r: "(case st f of (Next, f1) \<Rightarrow> (h f1, g f1) | r \<Rightarrow> r) = (fl, f2)"
  obtain fl1 f1 where s: "st f = (fl1, f1)" by (cases "st f")
  from quietD [OF assms(3) s] obtain new where
    1: "posted_history_file f1 = posted_history_file f" "events f1 = events f @ new"
      "\<forall>ev\<in>set new. \<not> ledger_event ev"
    by blast
  from r s have "f2 = f1 \<or> f2 = g f1" by (cases fl1) auto
  with 1 assms(1,2) show "posted_history_file f2 = posted_history_file f \<and>
     (\<exists>new. events f2 = events f @ new \<and> (\<forall>ev\<in>set new. \<not> ledger_event ev))"
    by auto
qed

lemma quiet_create_driver: "quiet (create_driver E)"
proof -
  have "create_driver E =
      (\<lambda>f. case call_stmt E CreateDriver f of
         (Next, f1) \<Rightarrow> ((\<lambda>f. Next) f1, (\<lambda>f. f\<lparr>driver_open := True\<rparr>) f1) | r \<Rightarrow> r)"
    by (rule ext) (simp add: create_driver_def)
  moreover have "quiet \<dots>" by (rule quiet_update) (simp_all add: quiet_call)
  ultimately show ?thesis by simp
qed

lemma quiet_load_content: "quiet (load_content E)"
  by (rule quietI) (auto simp: load_content_def log_def split: sum.splits)

lemma quiet_load_history: "quiet (load_history E)"
  by (rule quietI) (auto simp: load_history_def log_def split: sum.splits)

lemma quiet_select_candidate: "quiet (select_candidate E)"
proof (rule quietI)
  fix f fl f1
  assume r: "select_candidate E f = (fl, f1)"
  show "posted_history_file f1 = posted_history_file f \<and>
     (\<exists>new. events f1 = events f @ new \<and> (\<forall>ev\<in>set new. \<not> ledger_event ev))"
  proof (cases "find_next_content_item (content_items f) (post_history_entries f)")
    case (Inl e)
    with r show ?thesis by (auto simp: select_candidate_def log_def)
  next
    case (Inr found)
    show ?thesis
    proof (cases "truthy found")
      case True
      with r Inr show ?thesis by (auto simp: select_candidate_def)
    next
      case False
      obtain fl' f' where c: "call_stmt E ClearTempDirNoContent f = (fl', f')"
        by (cases "call_stmt E ClearTempDirNoContent f")
      with r Inr False have "f1 = f'" by (cases fl') (simp_all add: select_candidate_def)
      have "quiet (call_stmt E ClearTempDirNoContent)" by (rule quiet_call) simp
      from quietD [OF this c] \<open>f1 = f'\<close> show ?thesis by simp
    qed
  qed
qed

lemma quiet_derive_lines: "quiet (derive_lines E)"
  by (rule quietI) (auto simp: derive_lines_def log_def split: sum.splits)

lemma quiet_enter_text: "quiet (enter_text E)"
proof -
  have q: "quiet (guarded (seq [call_stmt E FocusTextField, call_stmt E InputMultilineText]))"
    by (intro quiet_guarded quiet_seq) (simp add: quiet_call)
  show ?thesis
  proof (rule quietI)
    fix f fl f1
    assume "enter_text E f = (fl, f1)"
    then consider "f1 = f"
      | "guarded (seq [call_stmt E FocusTextField, call_stmt E InputMultilineText]) f = (fl, f1)"
      by (auto simp: enter_text_def Let_def split: if_splits)
    then show "posted_history_file f1 = posted_history_file f \<and>
       (\<exists>new. events f1 = events f @ new \<and> (\<forall>ev\<in>set new. \<not> ledger_event ev))"
    proof cases
      case 1
      then show ?thesis by simp
    next
      case 2
      from quietD [OF q 2] show ?thesis by simp
    qed
  qed
qed

lemma quiet_attach_image: "quiet (attach_image E)"
proof -
  have "attach_image E =
      seq [call_stmt E DownloadImage,
           (\<lambda>f. if image_found E then call_stmt E UploadMedia f else (Next, f))]"
  proof (rule ext)
    fix f
    obtain fl f1 where c: "call_stmt E DownloadImage f = (fl, f1)"
      by (cases "call_stmt E DownloadImage f")
    obtain fl2 f2 where u: "call_stmt E UploadMedia f1 = (fl2, f2)"
      by (cases "call_stmt E UploadMedia f1")
    show "attach_image E f =
      seq [call_stmt E DownloadImage,
           (\<lambda>f. if image_found E then call_stmt E UploadMedia f else (Next, f))] f"
      using c u by (cases fl; cases fl2) (simp_all add: attach_image_def)
  qed
  moreover have "quiet (\<lambda>f. if image_found E then call_stmt E UploadMedia f else (Next, f))"
    using quiet_call [of UploadMedia E] by (cases "image_found E") (simp_all add: quiet_def)
  ultimately show ?thesis by (simp add: quiet_seq quiet_call)
qed

lemma quiet_before_post: "quiet (seq (before_post E))"
  by (rule quiet_seq)
    (simp add: before_post_def quiet_call quiet_guarded quiet_create_driver quiet_load_content
      quiet_load_history quiet_select_candidate quiet_derive_lines quiet_enter_text
      quiet_attach_image)

lemma quiet_after_record: "quiet (seq (after_record E))"
  by (rule quiet_seq) (simp add: after_record_def quiet_call)

lemma get_stripped_no_eni:
  "get_stripped x k = Inl e \<Longrightarrow> \<forall>msg. e \<noteq> ElementNotInteractableException msg"
  by (cases x) (auto split: json.splits)

lemma append_post_history_raised:
  "append_post_history L history_file entry = (raised, new_file) \<Longrightarrow> raised = Some x \<Longrightarrow>
   new_file = history_file \<or> new_file = Some []"
  by (auto simp: append_post_history_def write_text_def Let_def split: sum.splits)

lemma record_history_cases:
  assumes "record_history E f = (fl, f1)"
  shows "(\<exists>e. fl = Raise e \<and> f1 = log (Raised BuildEntry e) f \<and>
        (\<forall>msg. e \<noteq> ElementNotInteractableException msg)) \<or>
     (\<exists>entry. fl = Next \<and> events f1 = events f @ [Recorded entry]) \<or>
     (\<exists>x. fl = Raise (exn_of x) \<and>
        events f1 = events f @ [Raised AppendPostHistory (exn_of x)] \<and>
        (posted_history_file f1 = posted_history_file f \<or> posted_history_file f1 = Some []))"
proof (cases "get_stripped (candidate f) ''title''")
  case (Inl e)
  with assms have "fl = Raise e \<and> f1 = log (Raised BuildEntry e) f"
    by (auto simp: record_history_def)
  with get_stripped_no_eni [OF Inl] show ?thesis by blast
next
  case title: (Inr title)
  show ?thesis
  proof (cases "get_stripped (candidate f) ''image''")
    case (Inl e)
    with assms title have "fl = Raise e \<and> f1 = log (Raised BuildEntry e) f"
      by (auto simp: record_history_def)
    with get_stripped_no_eni [OF Inl] show ?thesis by blast
  next
    case (Inr image_url)
    define entry where "entry = JObj [(''title'', JStr title),
       (''description'', JStr (description_html f)), (''image'', JStr image_url)]"
    obtain raised file' where
      a: "append_post_history (library E) (posted_history_file f) entry = (raised, file')"
      by (cases "append_post_history (library E) (posted_history_file f) entry")
    show ?thesis
    proof (cases raised)
      case None
      with assms title Inr a have "fl = Next \<and> events f1 = events f @ [Recorded entry]"
        by (auto simp: record_history_def Let_def entry_def log_def)
      then show ?thesis by blast
    next
      case (Some x)
      with assms title Inr a have "fl = Raise (exn_of x) \<and>
          events f1 = events f @ [Raised AppendPostHistory (exn_of x)] \<and>
          posted_history_file f1 = file'"
        by (auto simp: record_history_def Let_def entry_def log_def)
      moreover from a Some have "file' = posted_history_file f \<or> file' = Some []"
        by (rule append_post_history_raised)
      ultimately show ?thesis by blast
    qed
  qed
qed

lemma try_body_record:
  assumes "try_body E f0 = (fl, f1)"
  shows "(posted_history_file f1 = posted_history_file f0 \<and>
      (\<exists>new. events f1 = events f0 @ new \<and> (\<forall>ev\<in>set new. \<not> ledger_event ev))) \<or>
     (outcome E ClickPost = None \<and>
      (\<exists>pre ev post. ledger_event ev \<and>
         events f1 = events f0 @ pre @ Returned ClickPost # ev # post \<and>
         (\<forall>e\<in>set pre. \<not> ledger_event e) \<and> (\<forall>e\<in>set post. \<not> ledger_event e) \<and>
         ((\<exists>entry. ev = Recorded entry) \<or>
          posted_history_file f1 = posted_history_file f0 \<or> posted_history_file f1 = Some [])))"
proof -
  obtain flA fA where A: "seq (before_post E) f0 = (flA, fA)"
    by (cases "seq (before_post E) f0")
  from quietD [OF quiet_before_post A] obtain newA where
    a: "posted_history_file fA = posted_history_file f0" "events fA = events f0 @ newA"
      "\<forall>ev\<in>set newA. \<not> ledger_event ev"
    by blast
  show ?thesis
  proof (cases "flA = Next")
    case False
    with assms A have "f1 = fA"
      by (cases flA) (simp_all add: try_body_def seq_append)
    with a show ?thesis by blast
  next
    case True
    with assms A have rest:
      "seq ([guarded (call_stmt E ClickPost), record_history E] @ after_record E) fA = (fl, f1)"
      by (simp add: try_body_def seq_append)
    show ?thesis
    proof (cases "outcome E ClickPost")
      case (Some e)
      then have "guarded (call_stmt E ClickPost) fA =
          (if e = TimeoutException then Return else Raise e, log (Raised ClickPost e) fA)"
        by (simp add: guarded_def call_stmt_def)
      with rest have "f1 = log (Raised ClickPost e) fA"
        by (auto split: if_splits)
      with a have "posted_history_file f1 = posted_history_file f0 \<and>
          events f1 = events f0 @ (newA @ [Raised ClickPost e]) \<and>
          (\<forall>ev\<in>set (newA @ [Raised ClickPost e]). \<not> ledger_event ev)"
        by (simp add: log_def)
      then show ?thesis by blast
    next
      case None
      let ?fB = "log (Returned ClickPost) fA"
      from None have "guarded (call_stmt E ClickPost) fA = (Next, ?fB)"
        by (simp add: guarded_def call_stmt_def)
      with rest have rest': "seq (record_history E # after_record E) ?fB = (fl, f1)"
        by simp
      obtain flR fR where R: "record_history E ?fB = (flR, fR)"
        by (cases "record_history E ?fB")
      from record_history_cases [OF R] consider
        (build) e where "flR = Raise e" "fR = log (Raised BuildEntry e) ?fB"
        | (recorded) entry where "flR = Next" "events fR = events ?fB @ [Recorded entry]"
        | (failed) x where "flR = Raise (exn_of x)"
            "events fR = events ?fB @ [Raised AppendPostHistory (exn_of x)]"
            "posted_history_file fR = posted_history_file ?fB \<or> posted_history_file fR = Some []"
        by blast
      then show ?thesis
      proof cases
        case build
        with rest' R have "f1 = fR" by simp
        with build a have "posted_history_file f1 = posted_history_file f0 \<and>
            events f1 = events f0 @ (newA @ [Returned ClickPost, Raised BuildEntry e]) \<and>
            (\<forall>ev\<in>set (newA @ [Returned ClickPost, Raised BuildEntry e]). \<not> ledger_event ev)"
          by (simp add: log_def)
        then show ?thesis by blast
      next
        case recorded
        with rest' R have "seq (after_record E) fR = (fl, f1)" by simp
        from quietD(2) [OF quiet_after_record this] obtain newC where
          c: "events f1 = events fR @ newC" "\<forall>ev\<in>set newC. \<not> ledger_event ev"
          by blast
        from a recorded c have
          "events f1 = events f0 @ newA @ Returned ClickPost # Recorded entry # newC"
          by (simp add: log_def)
        moreover have "ledger_event (Recorded entry)" by simp
        ultimately show ?thesis using a(3) c(2) None by blast
      next
        case failed
        with rest' R have "f1 = fR" by simp
        with a failed have
          "events f1 = events f0 @ newA @ Returned ClickPost # Raised AppendPostHistory (exn_of x) # []"
          "posted_history_file f1 = posted_history_file f0 \<or> posted_history_file f1 = Some []"
          by (simp_all add: log_def)
        moreover have "ledger_event (Raised AppendPostHistory (exn_of x))" by simp
        moreover have "\<forall>e\<in>set []. \<not> ledger_event e" by simp
        ultimately show ?thesis using a(3) None by blast
      qed
    qed
  qed
qed

lemma main_unfold:
  "outcome E LoadCookies = None \<Longrightarrow>
   try_body E (log (Returned LoadCookies) (initial file)) = (fl, f1) \<Longrightarrow>
   final (main E file) = (if driver_open f1 then snd (call_stmt E Quit f1) else f1) \<and>
   exit_code (main E file) =
     (if driver_open f1 \<and> outcome E Quit \<noteq> None then 1
      else case (case fl of Raise e \<Rightarrow> handlers e | _ \<Rightarrow> None) of
             Some status \<Rightarrow> status | None \<Rightarrow> 0)"
  by (auto simp: main_def call_stmt_def Let_def split: option.splits flow.splits)

lemma main_no_cookies:
  "outcome E LoadCookies = Some e \<Longrightarrow>
   final (main E file) = log (Raised LoadCookies e) (initial file) \<and> exit_code (main E file) = 1"
  by (simp add: main_def call_stmt_def)

lemma main_record:
  "(posted_history_file (final (main E file)) = file \<and>
      (\<forall>ev\<in>set (events (final (main E file))). \<not> ledger_event ev)) \<or>
   (outcome E ClickPost = None \<and>
      (\<exists>pre ev post. ledger_event ev \<and>
         events (final (main E file)) = pre @ Returned ClickPost # ev # post \<and>
         (\<forall>e\<in>set pre. \<not> ledger_event e) \<and> (\<forall>e\<in>set post. \<not> ledger_event e) \<and>
         ((\<exists>entry. ev = Recorded entry) \<or>
          posted_history_file (final (main E file)) = file \<or>
          posted_history_file (final (main E file)) = Some [])))"
proof (cases "outcome E LoadCookies")
  case (Some e)
  from main_no_cookies [OF this, of "file"] show ?thesis
    by (simp add: log_def initial_def)
next
  case None
  let ?f0 = "log (Returned LoadCookies) (initial file)"
  obtain fl f1 where t: "try_body E ?f0 = (fl, f1)" by (cases "try_body E ?f0")
  obtain flQ fQ where Q: "call_stmt E Quit f1 = (flQ, fQ)" by (cases "call_stmt E Quit f1")
  have "quiet (call_stmt E Quit)" by (rule quiet_call) simp
  from quietD [OF this Q] obtain newQ where
    q: "posted_history_file fQ = posted_history_file f1" "events fQ = events f1 @ newQ"
      "\<forall>ev\<in>set newQ. \<not> ledger_event ev"
    by blast
  define f2 where "f2 = (if driver_open f1 then fQ else f1)"
  have fin: "final (main E file) = f2"
    using main_unfold [OF None t] Q by (simp add: f2_def)
  obtain newF where
    f: "posted_history_file f2 = posted_history_file f1" "events f2 = events f1 @ newF"
      "\<forall>ev\<in>set newF. \<not> ledger_event ev"
  proof (cases "driver_open f1")
    case True
    with q that [of newQ] show ?thesis by (simp add: f2_def)
  next
    case False
    with that [of "[]"] show ?thesis by (simp add: f2_def)
  qed
  have i: "posted_history_file ?f0 = file" "events ?f0 = [Returned LoadCookies]"
    by (simp_all add: log_def initial_def)
  from try_body_record [OF t] show ?thesis
  proof
    assume "posted_history_file f1 = posted_history_file ?f0 \<and>
      (\<exists>new. events f1 = events ?f0 @ new \<and> (\<forall>ev\<in>set new. \<not> ledger_event ev))"
    with f i fin show ?thesis by auto
  next
    assume "outcome E ClickPost = None \<and>
      (\<exists>pre ev post. ledger_event ev \<and>
         events f1 = events ?f0 @ pre @ Returned ClickPost # ev # post \<and>
         (\<forall>e\<in>set pre. \<not> ledger_event e) \<and> (\<forall>e\<in>set post. \<not> ledger_event e) \<and>
         ((\<exists>entry. ev = Recorded entry) \<or>
          posted_history_file f1 = posted_history_file ?f0 \<or> posted_history_file f1 = Some []))"
    then obtain pre ev post where
      p: "outcome E ClickPost = None" "ledger_event ev"
        "events f1 = events ?f0 @ pre @ Returned ClickPost # ev # post"
        "\<forall>e\<in>set pre. \<not> ledger_event e" "\<forall>e\<in>set post. \<not> ledger_event e"
        "(\<exists>entry. ev = Recorded entry) \<or>
          posted_history_file f1 = posted_history_file ?f0 \<or> posted_history_file f1 = Some []"
      by blast
    from p(3) f(2) i(2) have
      "events f2 = (Returned LoadCookies # pre) @ Returned ClickPost # ev # (post @ newF)"
      by simp
    moreover from p(4) have "\<forall>e\<in>set (Returned LoadCookies # pre). \<not> ledger_event e" by simp
    moreover from p(5) f(3) have "\<forall>e\<in>set (post @ newF). \<not> ledger_event e" by auto
    moreover from p(6) f(1) i(1) have "(\<exists>entry. ev = Recorded entry) \<or>
        posted_history_file f2 = file \<or> posted_history_file f2 = Some []"
      by auto
    ultimately show ?thesis using p(1,2) fin by metis
  qed
qed

lemma ledger_event_place:
  assumes "ledger_event ev" and "ev \<in> set (pre @ Returned c # ev' # post)"
    and "\<forall>e\<in>set pre. \<not> ledger_event e" and "\<forall>e\<in>set post. \<not> ledger_event e"
  shows "ev' = ev"
  using assms by auto

text \<open>
  C3. In every run, a ledger append is the event right after the return of the click on
  the Post button, and the click did return; so is an append that raises, which leaves
  the ledger file as it was (when loading the ledger or printing the list raises) or
  empty (when the write raises). The ledger file differs from what it was only when an
  append was made, or when an append raised and left it empty; and when the click on
  Post raises (a timeout included) the ledger file is left as it was, nothing is
  recorded and no append is attempted.
\<close>

theorem recorded_only_after_submit:
  "(Recorded entry \<in> set (events (final (main E file))) \<longrightarrow>
      outcome E ClickPost = None \<and>
      (\<exists>pre post. events (final (main E file)) = pre @ Returned ClickPost # Recorded entry # post \<and>
         (\<forall>e. Recorded e \<notin> set pre) \<and> (\<forall>e. Recorded e \<notin> set post))) \<and>
   (Raised AppendPostHistory x \<in> set (events (final (main E file))) \<longrightarrow>
      outcome E ClickPost = None \<and>
      (\<exists>pre post. events (final (main E file))
           = pre @ Returned ClickPost # Raised AppendPostHistory x # post \<and>
         (\<forall>e. Recorded e \<notin> set pre) \<and> (\<forall>e. Recorded e \<notin> set post)) \<and>
      (posted_history_file (final (main E file)) = file \<or>
       posted_history_file (final (main E file)) = Some [])) \<and>
   (posted_history_file (final (main E file)) \<noteq> file \<longrightarrow>
      (\<exists>e. Recorded e \<in> set (events (final (main E file)))) \<or>
      ((\<exists>e. Raised AppendPostHistory e \<in> set (events (final (main E file)))) \<and>
       posted_history_file (final (main E file)) = Some [])) \<and>
   (outcome E ClickPost \<noteq> None \<longrightarrow>
      posted_history_file (final (main E file)) = file \<and>
      (\<forall>e. Recorded e \<notin> set (events (final (main E file)))) \<and>
      (\<forall>e. Raised AppendPostHistory e \<notin> set (events (final (main E file)))))"
proof -
  let ?evs = "events (final (main E file))"
  let ?file = "posted_history_file (final (main E file))"
  have none: "\<forall>e. Recorded e \<notin> set evs" if "\<forall>ev\<in>set evs. \<not> ledger_event ev" for evs
    using that by (metis ledger_event.simps(1))
  have place: "outcome E ClickPost = None \<and>
      (\<exists>pre post. ?evs = pre @ Returned ClickPost # ev # post \<and>
         (\<forall>e. Recorded e \<notin> set pre) \<and> (\<forall>e. Recorded e \<notin> set post)) \<and>
      ((\<exists>entry. ev = Recorded entry) \<or> ?file = file \<or> ?file = Some [])"
    if l: "ledger_event ev" and m: "ev \<in> set ?evs" for ev
  proof -
    from main_record [of E "file"] l m obtain pre ev' post where
      p: "outcome E ClickPost = None" "ledger_event ev'"
        "?evs = pre @ Returned ClickPost # ev' # post"
        "\<forall>e\<in>set pre. \<not> ledger_event e" "\<forall>e\<in>set post. \<not> ledger_event e"
        "(\<exists>entry. ev' = Recorded entry) \<or> ?file = file \<or> ?file = Some []"
      by blast
    from m p(3) have "ev \<in> set (pre @ Returned ClickPost # ev' # post)" by simp
    from ledger_event_place [OF l this p(4,5)] have "ev' = ev" .
    with p none [OF p(4)] none [OF p(5)] show ?thesis by blast
  qed
  have changed: "(\<exists>e. Recorded e \<in> set ?evs) \<or>
      ((\<exists>e. Raised AppendPostHistory e \<in> set ?evs) \<and> ?file = Some [])"
    if c: "?file \<noteq> file"
  proof -
    from main_record [of E "file"] c obtain pre ev post where
      p: "ledger_event ev" "?evs = pre @ Returned ClickPost # ev # post"
        "(\<exists>entry. ev = Recorded entry) \<or> ?file = file \<or> ?file = Some []"
      by blast
    from p(2) have m: "ev \<in> set ?evs" by simp
    show ?thesis
    proof (cases ev)
      case (Recorded e)
      with m show ?thesis by blast
    next
      case (Raised c' e)
      with p(1) have "ev = Raised AppendPostHistory e" by simp
      with m p(3) c show ?thesis by auto
    next
      case (Returned c')
      with p(1) show ?thesis by simp
    qed
  qed
  have unchanged: "?file = file \<and> (\<forall>ev\<in>set ?evs. \<not> ledger_event ev)"
    if "outcome E ClickPost \<noteq> None"
    using main_record [of E "file"] that by blast
  show ?thesis
  proof (intro conjI impI)
    assume "Recorded entry \<in> set ?evs"
    with place [of "Recorded entry"] show "outcome E ClickPost = None" and
      "\<exists>pre post. ?evs = pre @ Returned ClickPost # Recorded entry # post \<and>
         (\<forall>e. Recorded e \<notin> set pre) \<and> (\<forall>e. Recorded e \<notin> set post)"
      by simp_all
  next
    assume "Raised AppendPostHistory x \<in> set ?evs"
    with place [of "Raised AppendPostHistory x"] show "outcome E ClickPost = None" and
      "\<exists>pre post. ?evs = pre @ Returned ClickPost # Raised AppendPostHistory x # post \<and>
         (\<forall>e. Recorded e \<notin> set pre) \<and> (\<forall>e. Recorded e \<notin> set post)"
      and "?file = file \<or> ?file = Some []"
      by simp_all
  next
    assume "?file \<noteq> file"
    then show "(\<exists>e. Recorded e \<in> set ?evs) \<or>
      ((\<exists>e. Raised AppendPostHistory e \<in> set ?evs) \<and> ?file = Some [])"
      by (rule changed)
  next
    assume c: "outcome E ClickPost \<noteq> None"
    from unchanged [OF c] show "?file = file" by simp
    from unchanged [OF c] show "\<forall>e. Recorded e \<notin> set ?evs"
      by (metis ledger_event.simps(1))
    from unchanged [OF c] show "\<forall>e. Raised AppendPostHistory e \<notin> set ?evs"
      by (metis ledger_event.simps(2))
  qed
qed

theorem recorded_only_after_submit_witness:
  "Recorded example_entry \<in> set (events (final (main example_env (Some ''list'')))) \<and>
   outcome example_env ClickPost = None \<and>
   (\<exists>pre post. events (final (main example_env (Some ''list'')))
        = pre @ Returned ClickPost # Recorded example_entry # post \<and>
      (\<forall>e. Recorded e \<notin> set pre) \<and> (\<forall>e. Recorded e \<notin> set post)) \<and>
   posted_history_file (final (main example_env (Some ''list''))) \<noteq> Some ''list'' \<and>
   Raised AppendPostHistory UnicodeEncodeError
     \<in> set (events (final (main unencodable_env (Some ''list'')))) \<and>
   outcome unencodable_env ClickPost = None \<and>
   (\<exists>pre post. events (final (main unencodable_env (Some ''list'')))
        = pre @ Returned ClickPost # Raised AppendPostHistory UnicodeEncodeError # post \<and>
      (\<forall>e. Recorded e \<notin> set pre) \<and> (\<forall>e. Recorded e \<notin> set post)) \<and>
   posted_history_file (final (main unencodable_env (Some ''list''))) = Some [] \<and>
   outcome no_post_env ClickPost \<noteq> None \<and>
   posted_history_file (final (main no_post_env (Some ''list''))) = Some ''list'' \<and>
   Raised ClickPost TimeoutException \<in> set (events (final (main no_post_env (Some ''list''))))"
proof -
  have 1: "Recorded example_entry \<in> set (events (final (main example_env (Some ''list''))))"
    by code_simp
  have 2: "posted_history_file (final (main example_env (Some ''list''))) \<noteq> Some ''list''"
    by code_simp
  have 3: "outcome no_post_env ClickPost \<noteq> None"
    by (simp add: no_post_env_def)
  have 4: "Raised ClickPost TimeoutException \<in> set (events (final (main no_post_env (Some ''list''))))"
    by code_simp
  have 5: "Raised AppendPostHistory UnicodeEncodeError
     \<in> set (events (final (main unencodable_env (Some ''list''))))"
    by code_simp
  have 6: "posted_history_file (final (main unencodable_env (Some ''list''))) = Some []"
    by code_simp
  from recorded_only_after_submit [of example_entry example_env "Some ''list''" UnicodeEncodeError]
    recorded_only_after_submit [of example_entry unencodable_env "Some ''list''" UnicodeEncodeError]
    recorded_only_after_submit [of example_entry no_post_env "Some ''list''" UnicodeEncodeError]
    1 2 3 4 5 6
  show ?thesis by simp
qed

lemma eni_msgs_append: "eni_msgs (xs @ ys) = eni_msgs xs @ eni_msgs ys"
  by (induction xs rule: eni_msgs.induct) simp_all

lemma eni_msgs_mem:
  "msg \<in> set (eni_msgs evs) \<longleftrightarrow> (\<exists>c. Raised c (ElementNotInteractableException msg) \<in> set evs)"
  by (induction evs rule: eni_msgs.induct) auto

lemma traced_refl: "traced E f Next f"
  unfolding traced_def by (intro exI [of _ "[]"]) simp

lemma traced_trans:
  assumes "traced E f Next f1" and "traced E f1 fl f2"
  shows "traced E f fl f2"
proof -
  from assms(1) obtain new1 where
    1: "events f1 = events f @ new1" "\<forall>e. Raised Quit e \<notin> set new1"
      "\<forall>e. Raised LoadCookies e \<notin> set new1"
      "\<forall>c e. Raised c e \<in> set new1 \<longrightarrow>
         outcome E c = Some e \<or> (\<forall>msg. e \<noteq> ElementNotInteractableException msg)"
      "eni_msgs new1 = []"
    unfolding traced_def by auto
  from assms(2) obtain new2 where
    2: "events f2 = events f1 @ new2" "\<forall>e. Raised Quit e \<notin> set new2"
      "\<forall>e. Raised LoadCookies e \<notin> set new2"
      "\<forall>c e. Raised c e \<in> set new2 \<longrightarrow>
         outcome E c = Some e \<or> (\<forall>msg. e \<noteq> ElementNotInteractableException msg)"
      "eni_msgs new2 = raised_eni fl"
    unfolding traced_def by auto
  have "events f2 = events f @ (new1 @ new2)" using 1(1) 2(1) by simp
  moreover have "\<forall>e. Raised Quit e \<notin> set (new1 @ new2)" using 1(2) 2(2) by simp
  moreover have "\<forall>e. Raised LoadCookies e \<notin> set (new1 @ new2)" using 1(3) 2(3) by simp
  moreover have "\<forall>c e. Raised c e \<in> set (new1 @ new2) \<longrightarrow>
         outcome E c = Some e \<or> (\<forall>msg. e \<noteq> ElementNotInteractableException msg)"
    using 1(4) 2(4) by auto
  moreover have "eni_msgs (new1 @ new2) = raised_eni fl"
    using 1(5) 2(5) by (simp add: eni_msgs_append)
  ultimately show ?thesis unfolding traced_def by blast
qed

lemma traced_same_events:
  assumes "traced E f fl f1" and "events f2 = events f1" and "raised_eni fl' = raised_eni fl"
  shows "traced E f fl' f2"
  using assms unfolding traced_def by auto

lemma traced_call:
  assumes "c \<noteq> Quit" and "c \<noteq> LoadCookies" and "call_stmt E c f = (fl, f1)"
  shows "traced E f fl f1"
proof (cases "outcome E c")
  case None
  with assms(3) have "fl = Next" "events f1 = events f @ [Returned c]"
    by (auto simp: call_stmt_def log_def)
  then show ?thesis unfolding traced_def by (intro exI [of _ "[Returned c]"]) simp
next
  case (Some e)
  with assms(3) have r: "fl = Raise e" "events f1 = events f @ [Raised c e]"
    by (auto simp: call_stmt_def log_def)
  have "eni_msgs [Raised c e] = raised_eni (Raise e)" by (cases e) simp_all
  with r Some assms(1,2) show ?thesis
    unfolding traced_def by (intro exI [of _ "[Raised c e]"]) simp
qed

lemma traced_internal:
  assumes "\<forall>msg. e \<noteq> ElementNotInteractableException msg"
    and "c \<noteq> Quit" and "c \<noteq> LoadCookies"
  shows "traced E f (Raise e) (log (Raised c e) f)"
proof -
  from assms(1) have "eni_msgs [Raised c e] = []"
    by (cases e) simp_all
  moreover from assms(1) have "raised_eni (Raise e) = []"
    by (cases e) simp_all
  ultimately show ?thesis using assms
    unfolding traced_def by (intro exI [of _ "[Raised c e]"]) (simp add: log_def)
qed

lemma faithfulD: "faithful E st \<Longrightarrow> st f = (fl, f1) \<Longrightarrow> traced E f fl f1"
  unfolding faithful_def by blast

lemma faithful_call: "c \<noteq> Quit \<Longrightarrow> c \<noteq> LoadCookies \<Longrightarrow> faithful E (call_stmt E c)"
  unfolding faithful_def by (blast intro: traced_call)

lemma faithful_guarded: "faithful E st \<Longrightarrow> faithful E (guarded st)"
  unfolding faithful_def
proof (intro allI impI)
  fix f fl f1
  assume a: "\<forall>f fl f1. st f = (fl, f1) \<longrightarrow> traced E f fl f1" and g: "guarded st f = (fl, f1)"
  obtain fl' f' where s: "st f = (fl', f')" by (cases "st f")
  with a have t: "traced E f fl' f'" by blast
  from g s have "f1 = f'" "raised_eni fl = raised_eni fl'"
    by (auto simp: guarded_def split: flow.splits if_splits)
  with t show "traced E f fl f1" by (auto intro: traced_same_events)
qed

lemma faithful_seq: "\<forall>st\<in>set sts. faithful E st \<Longrightarrow> faithful E (seq sts)"
proof (induction sts)
  case Nil
  show ?case unfolding faithful_def by (auto intro: traced_refl)
next
  case (Cons st sts)
  then have q: "faithful E st" and qs: "faithful E (seq sts)" by simp_all
  show ?case unfolding faithful_def
  proof (intro allI impI)
    fix f fl f2
    assume r: "seq (st # sts) f = (fl, f2)"
    obtain fl1 f1 where s: "st f = (fl1, f1)" by (cases "st f")
    with q have t: "traced E f fl1 f1" unfolding faithful_def by blast
    show "traced E f fl f2"
    proof (cases "fl1 = Next")
      case True
      with r s have "seq sts f1 = (fl, f2)" by simp
      with qs have "traced E f1 fl f2" unfolding faithful_def by blast
      with t True show ?thesis by (auto intro: traced_trans)
    next
      case False
      with r s have "f2 = f1 \<and> fl = fl1" by (cases fl1) auto
      with t show ?thesis by simp
    qed
  qed
qed

lemma faithful_create_driver: "faithful E (create_driver E)"
  unfolding faithful_def
proof (intro allI impI)
  fix f fl f1
  assume r: "create_driver E f = (fl, f1)"
  obtain fl' f' where c: "call_stmt E CreateDriver f = (fl', f')"
    by (cases "call_stmt E CreateDriver f")
  then have t: "traced E f fl' f'" by (intro traced_call) simp_all
  from r c have "fl = fl' \<and> events f1 = events f'"
    by (cases fl') (auto simp: create_driver_def)
  with t show "traced E f fl f1" by (auto intro: traced_same_events)
qed

lemma exn_of_no_eni: "exn_of x \<noteq> ElementNotInteractableException msg"
  by (cases x) simp_all

lemma faithful_load_content: "faithful E (load_content E)"
  unfolding faithful_def
proof (intro allI impI)
  fix f fl f1
  assume r: "load_content E f = (fl, f1)"
  show "traced E f fl f1"
  proof (cases "load_content_items (lib_loads (library E)) (Some (github_text E))")
    case (Inl e)
    then have "\<forall>msg. e \<noteq> ElementNotInteractableException msg"
      by (auto simp: load_content_items_def exn_of_no_eni
          split: sum.splits json.splits if_splits)
    from traced_internal [OF this, of LoadContentItems E f] r Inl show ?thesis
      by (simp add: load_content_def)
  next
    case (Inr items)
    with r have "fl = Next" "events f1 = events f" by (auto simp: load_content_def)
    with traced_refl [of E f] show ?thesis by (auto intro: traced_same_events)
  qed
qed

lemma faithful_load_history: "faithful E (load_history E)"
  unfolding faithful_def
proof (intro allI impI)
  fix f fl f1
  assume r: "load_history E f = (fl, f1)"
  show "traced E f fl f1"
  proof (cases "load_post_history (library E) (posted_history_file f)")
    case (Inl x)
    have "\<forall>msg. exn_of x \<noteq> ElementNotInteractableException msg"
      by (simp add: exn_of_no_eni)
    from traced_internal [OF this, of LoadPostHistory E f] r Inl show ?thesis
      by (simp add: load_history_def)
  next
    case (Inr history)
    with r have "fl = Next" "events f1 = events f" by (auto simp: load_history_def)
    with traced_refl [of E f] show ?thesis by (auto intro: traced_same_events)
  qed
qed

lemma get_description_no_eni:
  "get_description x = Inl e \<Longrightarrow> \<forall>msg. e \<noteq> ElementNotInteractableException msg"
  by (cases x) (auto split: json.splits)

lemma posted_descriptions_no_eni:
  "posted_descriptions h acc = Inl e \<Longrightarrow> \<forall>msg. e \<noteq> ElementNotInteractableException msg"
proof (induction h arbitrary: acc)
  case Nil
  then show ?case by simp
next
  case (Cons x h)
  show ?case
  proof (cases "get_description x")
    case (Inl e')
    with Cons.prems have "e' = e" by simp
    with Inl show ?thesis by (auto dest: get_description_no_eni)
  next
    case (Inr d)
    with Cons.prems have "posted_descriptions h (insert d acc) = Inl e" by simp
    then show ?thesis by (rule Cons.IH)
  qed
qed

lemma scan_items_no_eni:
  "scan_items posted xs = Inl e \<Longrightarrow> \<forall>msg. e \<noteq> ElementNotInteractableException msg"
proof (induction xs)
  case Nil
  then show ?case by simp
next
  case (Cons x xs)
  show ?case
  proof (cases "get_description x")
    case (Inl e')
    with Cons.prems have "e' = e" by simp
    with Inl show ?thesis by (auto dest: get_description_no_eni)
  next
    case (Inr d)
    with Cons.prems have "scan_items posted xs = Inl e" by (simp split: if_splits)
    then show ?thesis by (rule Cons.IH)
  qed
qed

lemma find_next_no_eni:
  assumes "find_next_content_item items hist = Inl e"
  shows "\<forall>msg. e \<noteq> ElementNotInteractableException msg"
proof (cases "posted_descriptions hist {}")
  case (Inl e')
  with assms have "e' = e" by (simp add: find_next_content_item_def)
  with Inl show ?thesis by (auto dest: posted_descriptions_no_eni)
next
  case (Inr posted)
  with assms have "scan_items posted items = Inl e" by (simp add: find_next_content_item_def)
  then show ?thesis by (rule scan_items_no_eni)
qed

lemma faithful_select_candidate: "faithful E (select_candidate E)"
  unfolding faithful_def
proof (intro allI impI)
  fix f fl f1
  assume r: "select_candidate E f = (fl, f1)"
  show "traced E f fl f1"
  proof (cases "find_next_content_item (content_items f) (post_history_entries f)")
    case (Inl e)
    from traced_internal [OF find_next_no_eni [OF Inl], of FindNextContentItem E f] r Inl
    show ?thesis by (simp add: select_candidate_def)
  next
    case (Inr found)
    show ?thesis
    proof (cases "truthy found")
      case True
      with r Inr have "fl = Next" "events f1 = events f" by (auto simp: select_candidate_def)
      with traced_refl [of E f] show ?thesis by (auto intro: traced_same_events)
    next
      case False
      obtain fl' f' where c: "call_stmt E ClearTempDirNoContent f = (fl', f')"
        by (cases "call_stmt E ClearTempDirNoContent f")
      then have t: "traced E f fl' f'" by (intro traced_call) simp_all
      from r Inr False c have "f1 = f' \<and> raised_eni fl = raised_eni fl'"
        by (cases fl') (auto simp: select_candidate_def)
      with t show ?thesis by (auto intro: traced_same_events)
    qed
  qed
qed

lemma faithful_derive_lines: "faithful E (derive_lines E)"
  unfolding faithful_def
proof (intro allI impI)
  fix f fl f1
  assume r: "derive_lines E f = (fl, f1)"
  show "traced E f fl f1"
  proof (cases "get_stripped (candidate f) ''description''")
    case (Inl e)
    from traced_internal [OF get_stripped_no_eni [OF Inl], of BuildEntry E f] r Inl
    show ?thesis by (simp add: derive_lines_def)
  next
    case (Inr html)
    with r have "fl = Next" "events f1 = events f" by (auto simp: derive_lines_def)
    with traced_refl [of E f] show ?thesis by (auto intro: traced_same_events)
  qed
qed

lemma faithful_enter_text: "faithful E (enter_text E)"
proof -
  let ?typing = "guarded (seq [call_stmt E FocusTextField, call_stmt E InputMultilineText])"
  have "\<forall>st\<in>set [call_stmt E FocusTextField, call_stmt E InputMultilineText]. faithful E st"
    by (simp add: faithful_call)
  then have q: "faithful E ?typing"
    by (intro faithful_guarded faithful_seq)
  show ?thesis unfolding faithful_def
  proof (intro allI impI)
    fix f fl f1
    assume r: "enter_text E f = (fl, f1)"
    define combined where "combined =
       (if description_lines f \<noteq> []
        then py_join [CHR 0x0A, CHR 0x0A] (description_lines f)
        else description_html f)"
    show "traced E f fl f1"
    proof (cases "combined \<noteq> []")
      case True
      with r have "?typing f = (fl, f1)"
        by (simp add: enter_text_def Let_def combined_def)
      from faithfulD [OF q this] show ?thesis .
    next
      case False
      with r have "fl = Next" "f1 = f"
        by (simp_all add: enter_text_def Let_def combined_def)
      then show ?thesis by (simp add: traced_refl)
    qed
  qed
qed

lemma faithful_attach_image: "faithful E (attach_image E)"
  unfolding faithful_def
proof (intro allI impI)
  fix f fl f2
  assume r: "attach_image E f = (fl, f2)"
  obtain fl1 f1 where c: "call_stmt E DownloadImage f = (fl1, f1)"
    by (cases "call_stmt E DownloadImage f")
  then have t: "traced E f fl1 f1" by (intro traced_call) simp_all
  show "traced E f fl f2"
  proof (cases "fl1 = Next \<and> image_found E")
    case True
    with r c have u: "call_stmt E UploadMedia f1 = (fl, f2)" by (simp add: attach_image_def)
    then have "traced E f1 fl f2" by (intro traced_call) simp_all
    with t True show ?thesis by (auto intro: traced_trans)
  next
    case False
    with r c have "f2 = f1 \<and> fl = fl1" by (cases fl1) (auto simp: attach_image_def)
    with t show ?thesis by simp
  qed
qed

lemma faithful_record_history: "faithful E (record_history E)"
  unfolding faithful_def
proof (intro allI impI)
  fix f fl f1
  assume r: "record_history E f = (fl, f1)"
  from record_history_cases [OF r] consider
    (build) e where "fl = Raise e" "f1 = log (Raised BuildEntry e) f"
      "\<forall>msg. e \<noteq> ElementNotInteractableException msg"
    | (recorded) entry where "fl = Next" "events f1 = events f @ [Recorded entry]"
    | (failed) x where "fl = Raise (exn_of x)"
        "events f1 = events f @ [Raised AppendPostHistory (exn_of x)]"
    by blast
  then show "traced E f fl f1"
  proof cases
    case build
    from traced_internal [OF build(3), of BuildEntry E f] build(1,2) show ?thesis by simp
  next
    case recorded
    then show ?thesis unfolding traced_def by (intro exI [of _ "[Recorded entry]"]) simp
  next
    case failed
    have n: "\<forall>msg. exn_of x \<noteq> ElementNotInteractableException msg"
      by (simp add: exn_of_no_eni)
    from traced_internal [OF n, of AppendPostHistory E f]
    have "traced E f (Raise (exn_of x)) (log (Raised AppendPostHistory (exn_of x)) f)"
      by simp
    moreover have "events f1 = events (log (Raised AppendPostHistory (exn_of x)) f)"
      using failed(2) by (simp add: log_def)
    ultimately show ?thesis using failed(1) by (auto intro: traced_same_events)
  qed
qed

lemma faithful_try_body: "faithful E (try_body E)"
  unfolding try_body_def
  by (rule faithful_seq)
    (simp add: before_post_def after_record_def faithful_call faithful_guarded
      faithful_create_driver faithful_load_content faithful_load_history
      faithful_select_candidate faithful_derive_lines faithful_enter_text
      faithful_attach_image faithful_record_history)

lemma handlers_status:
  "(case (case fl of Raise e \<Rightarrow> handlers e | _ \<Rightarrow> None) of Some status \<Rightarrow> status | None \<Rightarrow> 0) =
     (if \<exists>msg\<in>set (raised_eni fl). says_not_interactable msg then 1 else 0)"
proof (cases fl)
  case (Raise e)
  then show ?thesis by (cases e) (simp_all add: handlers_def)
qed simp_all

lemma eni_msgs_ex:
  "(\<exists>msg\<in>set (eni_msgs evs). P msg) \<longleftrightarrow>
     (\<exists>c msg. Raised c (ElementNotInteractableException msg) \<in> set evs \<and> P msg)"
proof
  assume "\<exists>msg\<in>set (eni_msgs evs). P msg"
  then obtain msg where m: "msg \<in> set (eni_msgs evs)" "P msg" by blast
  from m(1) obtain c where "Raised c (ElementNotInteractableException msg) \<in> set evs"
    unfolding eni_msgs_mem by blast
  with m(2) show "\<exists>c msg. Raised c (ElementNotInteractableException msg) \<in> set evs \<and> P msg"
    by blast
next
  assume "\<exists>c msg. Raised c (ElementNotInteractableException msg) \<in> set evs \<and> P msg"
  then obtain c msg where m: "Raised c (ElementNotInteractableException msg) \<in> set evs" "P msg"
    by blast
  from m(1) have "msg \<in> set (eni_msgs evs)" unfolding eni_msgs_mem by blast
  with m(2) show "\<exists>msg\<in>set (eni_msgs evs). P msg" by blast
qed

lemma main_exit_code:
  "exit_code (main E file) =
     (if (\<exists>e. Raised LoadCookies e \<in> set (events (final (main E file)))) \<or>
         (\<exists>e. Raised Quit e \<in> set (events (final (main E file)))) \<or>
         (\<exists>c msg. Raised c (ElementNotInteractableException msg)
              \<in> set (events (final (main E file))) \<and>
            says_not_interactable msg)
      then 1 else 0) \<and>
   (\<forall>c e. Raised c e \<in> set (events (final (main E file))) \<longrightarrow>
      outcome E c = Some e \<or>
      ((\<forall>msg. e \<noteq> ElementNotInteractableException msg) \<and> c \<noteq> Quit \<and> c \<noteq> LoadCookies))"
proof (cases "outcome E LoadCookies")
  case (Some e)
  from main_no_cookies [OF this, of "file"] Some show ?thesis
    by (auto simp: log_def initial_def)
next
  case None
  let ?f0 = "log (Returned LoadCookies) (initial file)"
  obtain fl f1 where t: "try_body E ?f0 = (fl, f1)" by (cases "try_body E ?f0")
  from faithfulD [OF faithful_try_body t] obtain new where
    n: "events f1 = events ?f0 @ new" "\<forall>e. Raised Quit e \<notin> set new"
      "\<forall>e. Raised LoadCookies e \<notin> set new"
      "\<forall>c e. Raised c e \<in> set new \<longrightarrow>
         outcome E c = Some e \<or> (\<forall>msg. e \<noteq> ElementNotInteractableException msg)"
      "eni_msgs new = raised_eni fl"
    unfolding traced_def by blast
  have i: "events ?f0 = [Returned LoadCookies]" by (simp add: log_def initial_def)
  from main_unfold [OF None t] have
    fin: "final (main E file) = (if driver_open f1 then snd (call_stmt E Quit f1) else f1)" and
    code: "exit_code (main E file) =
       (if driver_open f1 \<and> outcome E Quit \<noteq> None then 1
        else if \<exists>msg\<in>set (raised_eni fl). says_not_interactable msg then 1 else 0)"
    by (simp_all add: handlers_status)
  have eni: "(\<exists>msg\<in>set (raised_eni fl). says_not_interactable msg) \<longleftrightarrow>
      (\<exists>c msg. Raised c (ElementNotInteractableException msg) \<in> set new \<and>
         says_not_interactable msg)"
    unfolding n(5) [symmetric] by (rule eni_msgs_ex)
  have o: "\<forall>c e. Raised c e \<in> set new \<longrightarrow>
      outcome E c = Some e \<or>
      ((\<forall>msg. e \<noteq> ElementNotInteractableException msg) \<and> c \<noteq> Quit \<and> c \<noteq> LoadCookies)"
    using n(2,3,4) by blast
  have part: "exit_code (main E file) =
       (if (\<exists>e. Raised LoadCookies e \<in> set (Returned LoadCookies # new @ q)) \<or>
           (\<exists>e. Raised Quit e \<in> set (Returned LoadCookies # new @ q)) \<or>
           (\<exists>c msg. Raised c (ElementNotInteractableException msg)
              \<in> set (Returned LoadCookies # new @ q) \<and> says_not_interactable msg)
        then 1 else 0) \<and>
     (\<forall>c e. Raised c e \<in> set (Returned LoadCookies # new @ q) \<longrightarrow>
        outcome E c = Some e \<or>
        ((\<forall>msg. e \<noteq> ElementNotInteractableException msg) \<and> c \<noteq> Quit \<and> c \<noteq> LoadCookies))"
    if q: "q = [] \<or> q = [Returned Quit] \<or> (\<exists>e. q = [Raised Quit e] \<and> outcome E Quit = Some e)"
      and x: "exit_code (main E file) =
         (if \<exists>e. q = [Raised Quit e] then 1
          else if \<exists>c msg. Raised c (ElementNotInteractableException msg) \<in> set new \<and>
                 says_not_interactable msg then 1 else 0)"
    for q
  proof -
    from q consider "q = []" | "q = [Returned Quit]"
      | e where "q = [Raised Quit e]" "outcome E Quit = Some e"
      by blast
    then show ?thesis
    proof cases
      case 1
      with x n(2,3) o show ?thesis by auto
    next
      case 2
      with x n(2,3) o show ?thesis by auto
    next
      case 3
      with x n(2,3) o show ?thesis by auto
    qed
  qed
  show ?thesis
  proof (cases "driver_open f1")
    case False
    with fin n(1) i have ev: "events (final (main E file)) = Returned LoadCookies # new @ []"
      by simp
    from False code eni have "exit_code (main E file) =
         (if \<exists>e. [] = [Raised Quit e] then 1
          else if \<exists>c msg. Raised c (ElementNotInteractableException msg) \<in> set new \<and>
                 says_not_interactable msg then 1 else 0)"
      by simp
    from part [OF _ this] show ?thesis unfolding ev by blast
  next
    case True
    show ?thesis
    proof (cases "outcome E Quit")
      case None
      with True fin n(1) i have
        ev: "events (final (main E file)) = Returned LoadCookies # new @ [Returned Quit]"
        by (simp add: call_stmt_def log_def)
      from None code eni have "exit_code (main E file) =
         (if \<exists>e. [Returned Quit] = [Raised Quit e] then 1
          else if \<exists>c msg. Raised c (ElementNotInteractableException msg) \<in> set new \<and>
                 says_not_interactable msg then 1 else 0)"
        by simp
      from part [OF _ this] show ?thesis unfolding ev by blast
    next
      case (Some e)
      with True fin n(1) i have
        ev: "events (final (main E file)) = Returned LoadCookies # new @ [Raised Quit e]"
        by (simp add: call_stmt_def log_def)
      from Some True code have "exit_code (main E file) =
         (if \<exists>e'. [Raised Quit e] = [Raised Quit e'] then 1
          else if \<exists>c msg. Raised c (ElementNotInteractableException msg) \<in> set new \<and>
                 says_not_interactable msg then 1 else 0)"
        by simp
      from part [OF _ this] Some show ?thesis unfolding ev by blast
    qed
  qed
qed

text \<open>
  C5, as amended. The process exits with status 1 exactly when an exception leaves
  \<^verbatim>\<open>main\<close>: \<^verbatim>\<open>load_cookies\<close> raises, \<^verbatim>\<open>driver.quit()\<close> raises, or a call of the
  workflow raises an \<^verbatim>\<open>ElementNotInteractableException\<close> whose text contains
  \<^verbatim>\<open>element not interactable\<close>, for which the handler calls \<^verbatim>\<open>sys.exit(1)\<close>. In every
  other run it exits with status 0: on normal completion, when there is nothing new to
  post, when a required element is never found (a \<^verbatim>\<open>TimeoutException\<close>) and on any other
  exception raised inside the \<^verbatim>\<open>try\<close>.
\<close>

theorem exit_code_cases:
  "exit_code (main E file) =
     (if (\<exists>e. Raised LoadCookies e \<in> set (events (final (main E file)))) \<or>
         (\<exists>e. Raised Quit e \<in> set (events (final (main E file)))) \<or>
         (\<exists>c msg. Raised c (ElementNotInteractableException msg)
              \<in> set (events (final (main E file))) \<and>
            says_not_interactable msg)
      then 1 else 0) \<and>
   (outcome E LoadCookies = None \<and> outcome E Quit = None \<and>
    (\<forall>c msg. outcome E c \<noteq> Some (ElementNotInteractableException msg)) \<longrightarrow>
      exit_code (main E file) = 0) \<and>
   (outcome E LoadCookies \<noteq> None \<longrightarrow> exit_code (main E file) = 1)"
proof (intro conjI impI)
  let ?evs = "events (final (main E file))"
  show c: "exit_code (main E file) =
     (if (\<exists>e. Raised LoadCookies e \<in> set ?evs) \<or> (\<exists>e. Raised Quit e \<in> set ?evs) \<or>
         (\<exists>c msg. Raised c (ElementNotInteractableException msg) \<in> set ?evs \<and>
            says_not_interactable msg)
      then 1 else 0)"
    using main_exit_code [of E "file"] by blast
  have o: "outcome E c = Some e \<or>
      ((\<forall>msg. e \<noteq> ElementNotInteractableException msg) \<and> c \<noteq> Quit \<and> c \<noteq> LoadCookies)"
    if "Raised c e \<in> set ?evs" for c e
    using main_exit_code [of E "file"] that by blast
  {
    assume a: "outcome E LoadCookies = None \<and> outcome E Quit = None \<and>
      (\<forall>c msg. outcome E c \<noteq> Some (ElementNotInteractableException msg))"
    have 1: "\<not> (\<exists>e. Raised LoadCookies e \<in> set ?evs)"
      using o [of LoadCookies] a by auto
    have 2: "\<not> (\<exists>e. Raised Quit e \<in> set ?evs)"
      using o [of Quit] a by auto
    have 3: "\<not> (\<exists>c msg. Raised c (ElementNotInteractableException msg) \<in> set ?evs \<and>
            says_not_interactable msg)"
      using o a by blast
    from c 1 2 3 show "exit_code (main E file) = 0" by simp
  }
  assume "outcome E LoadCookies \<noteq> None"
  then show "exit_code (main E file) = 1"
    using main_no_cookies [of E _ "file"] by auto
qed

text \<open>
  The create-post trigger is never found: the click times out, \<^verbatim>\<open>main\<close> prints and
  returns, and the process exits with status 0.
\<close>

theorem exit_code_timeout_counterexample:
  "outcome no_trigger_env ClickCreatePost = Some TimeoutException \<and>
   Raised ClickCreatePost TimeoutException \<in> set (events (final (main no_trigger_env None))) \<and>
   Returned ClickPost \<notin> set (events (final (main no_trigger_env None))) \<and>
   exit_code (main no_trigger_env None) = 0"
  by code_simp

theorem exit_code_cases_witness:
  "outcome example_env LoadCookies = None \<and> outcome example_env Quit = None \<and>
   exit_code (main example_env None) = 0 \<and>
   Returned ClearTempDirNoContent \<in> set (events (final (main nothing_new_env (Some ''list'')))) \<and>
   exit_code (main nothing_new_env (Some ''list'')) = 0 \<and>
   outcome no_cookies_env LoadCookies \<noteq> None \<and>
   exit_code (main no_cookies_env None) = 1 \<and>
   Raised ClickNext (ElementNotInteractableException ''Message: element not interactable'')
     \<in> set (events (final (main not_interactable_env None))) \<and>
   exit_code (main not_interactable_env None) = 1"
proof -
  have e: "outcome example_env c = None" for c
    by (simp add: example_env_def)
  have n: "outcome nothing_new_env c = None" for c
    by (simp add: nothing_new_env_def example_env_def)
  have k: "outcome no_cookies_env LoadCookies \<noteq> None"
    by (simp add: no_cookies_env_def)
  have 1: "Returned ClearTempDirNoContent
      \<in> set (events (final (main nothing_new_env (Some ''list''))))"
    by code_simp
  have 2: "Raised ClickNext (ElementNotInteractableException ''Message: element not interactable'')
     \<in> set (events (final (main not_interactable_env None)))"
    by code_simp
  have 3: "says_not_interactable ''Message: element not interactable''"
    by code_simp
  from 2 3 have 4: "\<exists>c msg. Raised c (ElementNotInteractableException msg)
       \<in> set (events (final (main not_interactable_env None))) \<and> says_not_interactable msg"
    by blast
  from exit_code_cases [of example_env None] e
  have a: "exit_code (main example_env None) = 0" by simp
  from exit_code_cases [of nothing_new_env "Some ''list''"] n
  have b: "exit_code (main nothing_new_env (Some ''list'')) = 0" by simp
  from exit_code_cases [of no_cookies_env None] k
  have c: "exit_code (main no_cookies_env None) = 1" by blast
  from exit_code_cases [of not_interactable_env None] 4
  have d: "exit_code (main not_interactable_env None) = 1" by presburger
  from e a 1 b k c 2 d show ?thesis by simp
qed

end
